theory Spec2Isabelle
  imports Main "HOL-Library.Word"
begin

section \<open>Machine types, constants and options of fifotest.c\<close>

text \<open>
  \<open>unsigned char\<close> is an 8-bit word, \<open>unsigned int\<close> and \<open>uint32_t\<close> are 32-bit words
  (an \<open>int\<close> is kept as its 32-bit pattern and read with the signed order \<open><s\<close>),
  \<open>unsigned long long\<close> is a 64-bit word. Indices and byte counts that the code keeps
  below a length it has already tested (\<open>i < len\<close>, \<open>avail < len\<close>) are natural numbers.
\<close>

type_synonym byte = "8 word"
type_synonym u32 = "32 word"
type_synonym u64 = "64 word"

definition DEFAULT_MAX_MSG_LEN :: u32 where
  "DEFAULT_MAX_MSG_LEN = 1024"

definition MAX_MAX_MSG_LEN :: u32 where
  "MAX_MAX_MSG_LEN = 4096"

record opts =
  opt_txdev :: "string option"
  opt_rxdev :: "string option"
  opt_seed :: u32
  opt_msglen :: u32
  opt_nmsgs :: u32
  opt_speed :: u32
  opt_verbose :: bool

text \<open>The initial values of the option variables (static storage is zeroed).\<close>

definition opts_init :: opts where
  "opts_init = \<lparr>opt_txdev = None, opt_rxdev = None, opt_seed = 42,
     opt_msglen = DEFAULT_MAX_MSG_LEN, opt_nmsgs = 0, opt_speed = 0, opt_verbose = False\<rparr>"

section \<open>The generator of libbrahe\<close>

text \<open>
  \<open>brahe_prng_init\<close>, \<open>brahe_prng_next\<close> and \<open>brahe_prng_range\<close> belong to the library
  libbrahe, which is not part of the repository. They are parameters of the model: a
  generator is any type \<open>'g\<close> of states with the three operations, each returning the
  value drawn and the state that follows.
\<close>

record 'g brahe =
  brahe_prng_init :: "u32 \<Rightarrow> 'g"
  brahe_prng_next :: "'g \<Rightarrow> u32 \<times> 'g"
  brahe_prng_range :: "'g \<Rightarrow> u32 \<Rightarrow> u32 \<Rightarrow> u32 \<times> 'g"

text \<open>
  The contract the specification gives for \<open>nextRange(lo, hi)\<close>: with \<open>lo \<le> hi\<close> the
  value drawn lies in \<open>[lo, hi]\<close>.
\<close>

definition range_in_bounds :: "'g brahe \<Rightarrow> bool" where
  "range_in_bounds P \<longleftrightarrow>
     (\<forall>g lo hi. lo \<le> hi \<longrightarrow>
        lo \<le> fst (brahe_prng_range P g lo hi) \<and> fst (brahe_prng_range P g lo hi) \<le> hi)"

text \<open>The state the generator is in after one call of \<open>brahe_prng_next\<close>.\<close>

definition after_next :: "'g brahe \<Rightarrow> 'g \<Rightarrow> 'g" where
  "after_next P g = snd (brahe_prng_next P g)"

text \<open>
  A small concrete generator (a linear congruential step; the range operation takes the
  state itself when it lies in the range and the lower bound otherwise). It stands in for
  libbrahe where a theorem is evaluated on an input.
\<close>

definition toy :: "u32 brahe" where
  "toy = \<lparr>brahe_prng_init = (\<lambda>seed. seed),
          brahe_prng_next = (\<lambda>g. (g, g * 1103515245 + 12345)),
          brahe_prng_range = (\<lambda>g lo hi.
             (if lo \<le> g \<and> g \<le> hi then g else lo, g * 1103515245 + 12345))\<rparr>"

section \<open>Messages: struct msg and msg_gen\<close>

text \<open>
  \<open>struct msg\<close>: the field \<open>next\<close> is zeroed by \<open>memset\<close> and never read, so the record
  keeps \<open>len\<close> and the flexible array \<open>buf\<close> (fields \<open>msg_len\<close>, \<open>msg_buf\<close>).
\<close>

record msg =
  msg_len :: u32
  msg_buf :: "byte list"

text \<open>
  The loop \<open>for (i = 0; i < len; i++) msg->buf[i] = brahe_prng_next(&prng)\<close>; the
  assignment truncates the 32-bit value to a byte.
\<close>

fun fill :: "'g brahe \<Rightarrow> nat \<Rightarrow> 'g \<Rightarrow> byte list \<times> 'g" where
  "fill P 0 g = ([], g)"
| "fill P (Suc n) g =
     (let (v, g1) = brahe_prng_next P g;
          (bs, g2) = fill P n g1
      in (ucast v # bs, g2))"

text \<open>
  \<open>msg_gen(int len)\<close>: a negative argument asks for a length drawn from \<open>[1, -len]\<close>.
  \<open>malloc\<close> is taken to succeed.
\<close>

definition msg_gen :: "'g brahe \<Rightarrow> u32 \<Rightarrow> 'g \<Rightarrow> msg \<times> 'g" where
  "msg_gen P len g =
     (let (len1, g1) = (if len <s 0 then brahe_prng_range P g 1 (- len) else (len, g));
          (bs, g2) = fill P (unat len1) g1
      in (\<lparr>msg_len = len1, msg_buf = bs\<rparr>, g2))"

section \<open>Output: printf formats, prefixes and colours\<close>

text \<open>
  What the program prints is kept as text: a list of writes, each to \<open>stdout\<close> or to
  \<open>stderr\<close>. The conversions \<open>%u\<close>, \<open>%llu\<close>, \<open>%d\<close>, \<open>%zd\<close>, \<open>%04x\<close> and \<open>%02x\<close> of
  \<open>printf\<close> are written out.
\<close>

datatype out = Stdout string | Stderr string

datatype thread = Main_thread | Rx_thread | Tx_thread

definition NL :: string where
  "NL = [CHR 0x0A]"

definition ESC_RED :: string where
  "ESC_RED = CHR 0x1B # ''[31m''"

definition ESC_GREEN :: string where
  "ESC_GREEN = CHR 0x1B # ''[32m''"

definition ESC_YELLOW :: string where
  "ESC_YELLOW = CHR 0x1B # ''[33m''"

definition ESC_BLUE :: string where
  "ESC_BLUE = CHR 0x1B # ''[34m''"

definition ESC_PURPLE :: string where
  "ESC_PURPLE = CHR 0x1B # ''[35m''"

definition ESC_RM :: string where
  "ESC_RM = CHR 0x1B # ''[0m''"

definition TAG_TX :: string where
  "TAG_TX = ESC_BLUE @ ''[tx] ''"

definition TAG_RX :: string where
  "TAG_RX = ESC_PURPLE @ ''[rx] ''"

text \<open>
  \<open>thread_prefix\<close> compares \<open>pthread_self()\<close> with \<open>rx_thread\<close>, then with \<open>tx_thread\<close>;
  the model names the calling thread.
\<close>

fun thread_prefix :: "thread \<Rightarrow> string" where
  "thread_prefix Rx_thread = TAG_RX"
| "thread_prefix Tx_thread = TAG_TX"
| "thread_prefix Main_thread = []"

definition digit_char :: "nat \<Rightarrow> char" where
  "digit_char d = ''0123456789abcdef'' ! d"

function fmt_u :: "nat \<Rightarrow> string" where
  "fmt_u n = (if n < 10 then [digit_char n] else fmt_u (n div 10) @ [digit_char (n mod 10)])"
  by pat_completeness auto
termination
  by (relation "measure (\<lambda>n. n)") auto

function fmt_x :: "nat \<Rightarrow> string" where
  "fmt_x n = (if n < 16 then [digit_char n] else fmt_x (n div 16) @ [digit_char (n mod 16)])"
  by pat_completeness auto
termination
  by (relation "measure (\<lambda>n. n)") auto

definition fmt_0x :: "nat \<Rightarrow> nat \<Rightarrow> string" where
  "fmt_0x w n = replicate (w - length (fmt_x n)) (CHR ''0'') @ fmt_x n"

definition fmt_d :: "int \<Rightarrow> string" where
  "fmt_d i = (if i < 0 then ''-'' @ fmt_u (nat (- i)) else fmt_u (nat i))"

definition pr_info :: "thread \<Rightarrow> string \<Rightarrow> string" where
  "pr_info self s = thread_prefix self @ s @ ESC_RM"

definition pr_debug :: "opts \<Rightarrow> thread \<Rightarrow> string \<Rightarrow> out list" where
  "pr_debug opt self s = (if opt_verbose opt then [Stdout (pr_info self s)] else [])"

definition pr_warn :: "thread \<Rightarrow> string \<Rightarrow> string" where
  "pr_warn self s = thread_prefix self @ ESC_YELLOW @ s @ ESC_RM"

definition pr_error :: "thread \<Rightarrow> string \<Rightarrow> out" where
  "pr_error self s = Stderr (thread_prefix self @ ESC_RED @ s @ ESC_RM)"

section \<open>Global state\<close>

text \<open>
  The global variables \<open>prng\<close>, \<open>rx_bytes\<close>, \<open>tx_bytes\<close>, \<open>msgs\<close>, and the array
  \<open>static unsigned char buf[MAX_MAX_MSG_LEN]\<close> of \<open>receive_start\<close>, which keeps its
  contents from one call to the next.
\<close>

record 'g globals =
  prng :: 'g
  rx_bytes :: u64
  tx_bytes :: u64
  msgs :: u32
  rx_static_buf :: "byte list"

definition globals_init :: "'g \<Rightarrow> 'g globals" where
  "globals_init g = \<lparr>prng = g, rx_bytes = 0, tx_bytes = 0, msgs = 0,
     rx_static_buf = replicate (unat MAX_MAX_MSG_LEN) 0\<rparr>"

definition print_stats :: "thread \<Rightarrow> 'g globals \<Rightarrow> out" where
  "print_stats self s = Stdout (pr_warn self
     (''MSG: '' @ fmt_u (unat (msgs s)) @ '', TX: '' @ fmt_u (unat (tx_bytes s)) @
      '' bytes, RX: '' @ fmt_u (unat (rx_bytes s)) @ '' bytes'' @ NL))"

section \<open>Dump and diff of buffers\<close>

definition printable :: "byte \<Rightarrow> char" where
  "printable c = (if 32 \<le> c \<and> c < 127 then char_of (unat c) else CHR ''.'')"

text \<open>
  \<open>print_line(index, buf, len)\<close>. The pointer \<open>buf\<close> is a list that starts at the byte it
  points to; \<open>buf ! i\<close> is \<open>buf[i]\<close>.
\<close>

definition print_line :: "thread \<Rightarrow> nat \<Rightarrow> byte list \<Rightarrow> nat \<Rightarrow> string" where
  "print_line self index buf len =
     pr_info self (fmt_0x 4 index @ '':'') @
     concat (map (\<lambda>i. '' '' @ fmt_0x 2 (unat (buf ! i))) [0..<len]) @
     concat (replicate (16 - len) ''   '') @
     '' |'' @
     map (\<lambda>i. printable (buf ! i)) [0..<len] @
     ''|'' @ NL"

text \<open>
  \<open>print_buffer\<close>: \<open>for (i = 0; i < len; i += 16) print_line(i, buf + i, min(len - i, 16u))\<close>.
\<close>

function print_buffer_from :: "thread \<Rightarrow> byte list \<Rightarrow> nat \<Rightarrow> nat \<Rightarrow> string" where
  "print_buffer_from self buf len i =
     (if i < len
      then print_line self i (drop i buf) (min (len - i) 16) @
           print_buffer_from self buf len (i + 16)
      else [])"
  by pat_completeness auto
termination
  by (relation "measure (\<lambda>(self, buf, len, i). len - i)") auto

definition print_buffer :: "thread \<Rightarrow> byte list \<Rightarrow> nat \<Rightarrow> string" where
  "print_buffer self buf len = print_buffer_from self buf len 0"

text \<open>
  \<open>cmp_line(address, buf1, buf2, len)\<close>: the text of the row and the value returned, the
  number of times \<open>res++\<close> ran.
\<close>

definition cmp_line :: "thread \<Rightarrow> nat \<Rightarrow> byte list \<Rightarrow> byte list \<Rightarrow> nat \<Rightarrow> string \<times> int" where
  "cmp_line self address buf1 buf2 len =
     (pr_info self (fmt_0x 4 address @ '':'') @
      concat (map (\<lambda>i. if buf1 ! i = buf2 ! i
                        then '' '' @ fmt_0x 2 (unat (buf1 ! i))
                        else '' '' @ ESC_RED @ fmt_0x 2 (unat (buf1 ! i)) @ ESC_RM) [0..<len]) @
      concat (replicate (16 - len) ''   '') @
      '' |'' @
      concat (map (\<lambda>i. if buf1 ! i = buf2 ! i
                        then [printable (buf1 ! i)]
                        else ESC_RED @ [printable (buf1 ! i)] @ ESC_RM) [0..<len]) @
      ''|'' @ NL,
      int (length (filter (\<lambda>i. buf1 ! i \<noteq> buf2 ! i) [0..<len])))"

text \<open>
  \<open>cmp_buffer\<close>: a row whose \<open>cmp_line\<close> returns 0 is followed by nothing (\<open>continue\<close>);
  any other row is followed by \<open>Expected:\<close> and the row of \<open>buf2\<close>.
\<close>

function cmp_buffer_from :: "thread \<Rightarrow> byte list \<Rightarrow> byte list \<Rightarrow> nat \<Rightarrow> nat \<Rightarrow> string" where
  "cmp_buffer_from self buf1 buf2 len i =
     (if i < len
      then (let (row, res) = cmp_line self i (drop i buf1) (drop i buf2) (min (len - i) 16)
            in if res = 0
               then row @ cmp_buffer_from self buf1 buf2 len (i + 16)
               else row @ pr_info self (''Expected:'' @ NL) @
                    print_line self i (drop i buf2) (min (len - i) 16) @
                    cmp_buffer_from self buf1 buf2 len (i + 16))
      else [])"
  by pat_completeness auto
termination
  by (relation "measure (\<lambda>(self, buf1, buf2, len, i). len - i)") auto

definition cmp_buffer :: "thread \<Rightarrow> byte list \<Rightarrow> byte list \<Rightarrow> nat \<Rightarrow> string" where
  "cmp_buffer self buf1 buf2 len = cmp_buffer_from self buf1 buf2 len 0"

definition msg_dump :: "thread \<Rightarrow> msg \<Rightarrow> string" where
  "msg_dump self m =
     pr_info self (''Message with '' @ fmt_u (unat (msg_len m)) @ '' bytes of data'' @ NL) @
     print_buffer self (msg_buf m) (unat (msg_len m))"

text \<open>
  \<open>memcmp\<close> of the C library over the first \<open>n\<close> bytes: zero when they agree, otherwise
  the difference of the first two bytes that differ, read as unsigned.
\<close>

fun cmp_bytes :: "byte list \<Rightarrow> byte list \<Rightarrow> int" where
  "cmp_bytes (x # xs) (y # ys) = (if x = y then cmp_bytes xs ys else uint x - uint y)"
| "cmp_bytes xs ys = 0"

definition memcmp :: "byte list \<Rightarrow> byte list \<Rightarrow> nat \<Rightarrow> int" where
  "memcmp s1 s2 n = cmp_bytes (take n s1) (take n s2)"

section \<open>The operating system: devices, write and read\<close>

text \<open>
  \<open>device_open\<close> opens and configures a device and either returns a descriptor or prints
  an error and calls \<open>exit(-1)\<close>; which of the two is decided by the operating system and
  is an input of the model (the terminal configuration and the text of its messages are
  not modelled).

  A transmit endpoint is the list of what the next calls of \<open>write\<close> will meet: room for
  some number of bytes, or an error with its \<open>errno\<close>. A receive endpoint is the list of
  what the next calls of \<open>read\<close> will meet: bytes that have arrived, or an error. A
  call on an empty list never returns (the call blocks). \<open>write\<close> and \<open>read\<close> transfer
  at most the count they are asked for; bytes a \<open>read\<close> leaves behind stay in the endpoint.
  A result is the value returned (\<open>-1\<close> on error) and \<open>errno\<close>.
\<close>

datatype dev = Dev_ok | Dev_fail

datatype tx_ev = Tx_accept nat | Tx_error int

datatype rx_ev = Rx_data "byte list" | Rx_error int

fun sys_write :: "tx_ev list \<Rightarrow> nat \<Rightarrow> (int \<times> int) option" where
  "sys_write [] count = None"
| "sys_write (Tx_error e # rest) count = Some (- 1, e)"
| "sys_write (Tx_accept n # rest) count = Some (int (min n count), 0)"

fun sys_read :: "rx_ev list \<Rightarrow> nat \<Rightarrow> (int \<times> int \<times> byte list \<times> rx_ev list) option" where
  "sys_read [] count = None"
| "sys_read (Rx_error e # rest) count = Some (- 1, e, [], rest)"
| "sys_read (Rx_data bs # rest) count =
     (if length bs \<le> count
      then Some (int (length bs), 0, bs, rest)
      else Some (int count, 0, take count bs, Rx_data (drop count bs) # rest))"

text \<open>
  How a worker ends: it returns, it calls \<open>exit\<close>, it blocks for ever in a system call,
  or a \<open>read\<close> has stored bytes past the end of the static buffer.
\<close>

datatype outcome = Returned | Exited int | Blocked | Overrun

section \<open>The transmit worker\<close>

record 'g tx_result =
  tx_outcome :: outcome
  tx_state :: "'g globals"
  tx_out :: "out list"
  tx_sent :: "byte list"

text \<open>
  \<open>transmit_start\<close>: one call of \<open>write\<close> for the whole body. \<open>tx_sent\<close> is what the
  endpoint took. The comparison \<open>res < msg->len\<close> is made on \<open>ssize_t\<close>.
\<close>

definition transmit_start ::
  "opts \<Rightarrow> dev \<Rightarrow> tx_ev list \<Rightarrow> msg \<Rightarrow> 'g globals \<Rightarrow> 'g tx_result" where
  "transmit_start opt d evs m s =
     (case d of
        Dev_fail \<Rightarrow> \<lparr>tx_outcome = Exited (- 1), tx_state = s, tx_out = [], tx_sent = []\<rparr>
      | Dev_ok \<Rightarrow>
          let o1 = (if opt_verbose opt then [Stdout (msg_dump Tx_thread m)] else [])
          in (case sys_write evs (unat (msg_len m)) of
                None \<Rightarrow> \<lparr>tx_outcome = Blocked, tx_state = s, tx_out = o1, tx_sent = []\<rparr>
              | Some (res, errno) \<Rightarrow>
                  if res < 0
                  then \<lparr>tx_outcome = Exited (- 1), tx_state = s,
                         tx_out = o1 @ [pr_error Tx_thread (''Write error '' @ fmt_d errno @ NL)],
                         tx_sent = []\<rparr>
                  else
                    let s1 = s\<lparr>tx_bytes := tx_bytes s + word_of_int res\<rparr>;
                        sent = take (nat res) (msg_buf m)
                    in if res < uint (msg_len m)
                       then \<lparr>tx_outcome = Exited (- 1), tx_state = s1,
                              tx_out = o1 @ [pr_error Tx_thread
                                (''Short write '' @ fmt_d res @ '' < '' @
                                 fmt_u (unat (msg_len m)) @ NL)],
                              tx_sent = sent\<rparr>
                       else \<lparr>tx_outcome = Returned, tx_state = s1, tx_out = o1,
                              tx_sent = sent\<rparr>))"

section \<open>The receive worker\<close>

record 'g rx_result =
  rx_outcome :: outcome
  rx_state :: "'g globals"
  rx_out :: "out list"
  rx_trunc :: "u32 option"
  rx_reads :: "(nat \<times> nat) list"

text \<open>
  The loop \<open>while (avail < len)\<close> of \<open>receive_start\<close>. \<open>rx_reads\<close> lists the calls of
  \<open>read\<close> in order, each as the offset \<open>avail\<close> into \<open>buf\<close> and the count \<open>len - avail\<close>
  asked for. The bytes read replace those of the buffer from \<open>avail\<close> on.
\<close>

definition buf_store :: "byte list \<Rightarrow> nat \<Rightarrow> byte list \<Rightarrow> byte list" where
  "buf_store b off bs = take off b @ bs @ drop (off + length bs) b"

function receive_loop :: "nat \<Rightarrow> rx_ev list \<Rightarrow> nat \<Rightarrow> 'g globals \<Rightarrow> 'g rx_result" where
  "receive_loop len evs avail s =
     (if avail < len
      then (case sys_read evs (len - avail) of
              None \<Rightarrow> \<lparr>rx_outcome = Blocked, rx_state = s, rx_out = [], rx_trunc = None,
                        rx_reads = [(avail, len - avail)]\<rparr>
            | Some (res, errno, bs, rest) \<Rightarrow>
                if res < 0
                then \<lparr>rx_outcome = Exited (- 1), rx_state = s,
                       rx_out = [pr_error Rx_thread (''Read error '' @ fmt_d errno @ NL)],
                       rx_trunc = None, rx_reads = [(avail, len - avail)]\<rparr>
                else if length (rx_static_buf s) < avail + nat res
                then \<lparr>rx_outcome = Overrun, rx_state = s, rx_out = [], rx_trunc = None,
                       rx_reads = [(avail, len - avail)]\<rparr>
                else
                  let r = receive_loop len rest (avail + nat res)
                            (s\<lparr>rx_static_buf := buf_store (rx_static_buf s) avail bs,
                               rx_bytes := rx_bytes s + word_of_int res\<rparr>)
                  in r\<lparr>rx_reads := (avail, len - avail) # rx_reads r\<rparr>)
      else \<lparr>rx_outcome = Returned, rx_state = s, rx_out = [], rx_trunc = None,
             rx_reads = []\<rparr>)"
  by pat_completeness auto
termination
proof (relation "measure (\<lambda>(len, evs, avail, s). (len - avail) + length evs)", goal_cases)
  case 1
  show ?case by simp
next
  case (2 len evs avail s x2 res y errno ya bs rest)
  show ?case
  proof (cases evs)
    case Nil
    with 2 show ?thesis by simp
  next
    case (Cons e es)
    with 2 show ?thesis by (cases e) (auto split: if_splits)
  qed
qed

text \<open>
  \<open>receive_start\<close>: the truncation length is drawn once, right after the device is
  open; the prefix is read, then compared with \<open>memcmp\<close>.
\<close>

definition receive_start ::
  "'g brahe \<Rightarrow> opts \<Rightarrow> dev \<Rightarrow> rx_ev list \<Rightarrow> msg \<Rightarrow> 'g globals \<Rightarrow> 'g rx_result" where
  "receive_start P opt d evs m s =
     (case d of
        Dev_fail \<Rightarrow> \<lparr>rx_outcome = Exited (- 1), rx_state = s, rx_out = [], rx_trunc = None,
                      rx_reads = []\<rparr>
      | Dev_ok \<Rightarrow>
          let (len, g1) = brahe_prng_range P (prng s) 1 (msg_len m);
              o1 = pr_debug opt Rx_thread (ESC_GREEN @ ''Receiving first '' @ fmt_u (unat len) @
                     '' bytes of message of size '' @ fmt_u (unat (msg_len m)) @ NL);
              r = receive_loop (unat len) evs 0 (s\<lparr>prng := g1\<rparr>)
          in (case rx_outcome r of
                Returned \<Rightarrow>
                  if memcmp (rx_static_buf (rx_state r)) (msg_buf m) (unat len) \<noteq> 0
                  then r\<lparr>rx_outcome := Exited (- 1),
                         rx_out := o1 @ rx_out r @
                           [pr_error Rx_thread (''Data mismatch'' @ NL),
                            Stdout (cmp_buffer Rx_thread (rx_static_buf (rx_state r))
                                      (msg_buf m) (unat len)),
                            print_stats Rx_thread (rx_state r)],
                         rx_trunc := Some len\<rparr>
                  else r\<lparr>rx_out := o1 @ rx_out r @
                           pr_debug opt Rx_thread (ESC_GREEN @ ''OK'' @ NL),
                         rx_trunc := Some len\<rparr>
              | _ \<Rightarrow> r\<lparr>rx_out := o1 @ rx_out r, rx_trunc := Some len\<rparr>))"

section \<open>One round and the loop of main\<close>

text \<open>
  \<open>signal_handler\<close> (installed for \<open>SIGINT\<close>): the statistics line, then \<open>exit(-1)\<close>.
\<close>

definition signal_handler :: "thread \<Rightarrow> 'g globals \<Rightarrow> out list \<times> outcome" where
  "signal_handler self s = ([print_stats self s], Exited (- 1))"

text \<open>
  What the world does during one round: whether \<open>SIGINT\<close> arrives (the model delivers it
  at the head of the loop, where no worker runs), which worker is scheduled first, and
  the two devices. The two workers run concurrently; they write disjoint global
  variables (the transmit worker \<open>tx_bytes\<close>; the receive worker \<open>prng\<close>, \<open>rx_bytes\<close> and
  its buffer), so the state after both have returned is the same in every interleaving,
  and the model runs them one after the other, in the order \<open>tx_first\<close> chooses. A worker
  that calls \<open>exit\<close> ends the process before the other one is run.
\<close>

record round_env =
  sigint :: bool
  tx_first :: bool
  rx_dev :: dev
  rx_evs :: "rx_ev list"
  tx_dev :: dev
  tx_evs :: "tx_ev list"

text \<open>
  How an observed run ends: \<open>exit(c)\<close>; \<open>main\<close> waits for ever in \<open>pthread_join\<close>; a
  store past the end of the buffer; or the observation ends while the loop is running.
\<close>

datatype ending = Exit int | Hung | Fault | Running

text \<open>
  What a round generated: the message, the truncation length when the receive worker
  drew one, and whether both workers returned.
\<close>

record round_rec =
  r_msg :: msg
  r_trunc :: "u32 option"
  r_done :: bool

record 'g round_result =
  rd_ending :: "ending option"
  rd_state :: "'g globals"
  rd_rec :: round_rec
  rd_out :: "out list"

fun stops :: "outcome \<Rightarrow> ending option" where
  "stops (Exited c) = Some (Exit c)"
| "stops Overrun = Some Fault"
| "stops Returned = None"
| "stops Blocked = None"

text \<open>
  \<open>pthread_join\<close> of both workers, the first of which has not ended the process: the
  round is complete (\<open>None\<close>) when both have returned.
\<close>

definition joined :: "outcome \<Rightarrow> outcome \<Rightarrow> ending option" where
  "joined a b =
     (case stops b of
        Some e \<Rightarrow> Some e
      | None \<Rightarrow> if a = Returned \<and> b = Returned then None else Some Hung)"

text \<open>
  The body of the loop of \<open>main\<close>: \<open>msg_gen(-opt_msglen)\<close>, the two workers, the joins.
\<close>

definition run_round :: "'g brahe \<Rightarrow> opts \<Rightarrow> round_env \<Rightarrow> 'g globals \<Rightarrow> 'g round_result" where
  "run_round P opt e s =
     (let (m, g1) = msg_gen P (- opt_msglen opt) (prng s);
          s1 = s\<lparr>prng := g1\<rparr>
      in if tx_first e
         then (let t = transmit_start opt (tx_dev e) (tx_evs e) m s1
               in case stops (tx_outcome t) of
                    Some en \<Rightarrow>
                      \<lparr>rd_ending = Some en, rd_state = tx_state t,
                       rd_rec = \<lparr>r_msg = m, r_trunc = None, r_done = False\<rparr>,
                       rd_out = tx_out t\<rparr>
                  | None \<Rightarrow>
                      let r = receive_start P opt (rx_dev e) (rx_evs e) m (tx_state t);
                          en = joined (tx_outcome t) (rx_outcome r)
                      in \<lparr>rd_ending = en, rd_state = rx_state r,
                          rd_rec = \<lparr>r_msg = m, r_trunc = rx_trunc r, r_done = (en = None)\<rparr>,
                          rd_out = tx_out t @ rx_out r\<rparr>)
         else (let r = receive_start P opt (rx_dev e) (rx_evs e) m s1
               in case stops (rx_outcome r) of
                    Some en \<Rightarrow>
                      \<lparr>rd_ending = Some en, rd_state = rx_state r,
                       rd_rec = \<lparr>r_msg = m, r_trunc = rx_trunc r, r_done = False\<rparr>,
                       rd_out = rx_out r\<rparr>
                  | None \<Rightarrow>
                      let t = transmit_start opt (tx_dev e) (tx_evs e) m (rx_state r);
                          en = joined (rx_outcome r) (tx_outcome t)
                      in \<lparr>rd_ending = en, rd_state = tx_state t,
                          rd_rec = \<lparr>r_msg = m, r_trunc = rx_trunc r, r_done = (en = None)\<rparr>,
                          rd_out = rx_out r @ tx_out t\<rparr>))"

record 'g run =
  ending :: ending
  final :: "'g globals"
  rounds :: "round_rec list"
  run_out :: "out list"

text \<open>
  \<open>for (msgs = 0; !opt_nmsgs || msgs < opt_nmsgs; msgs++)\<close>, then \<open>print_stats\<close> and
  \<open>exit(0)\<close>. The list gives the world of each round that is observed; \<open>msgs\<close> is set to
  0 by the caller.
\<close>

fun main_loop :: "'g brahe \<Rightarrow> opts \<Rightarrow> round_env list \<Rightarrow> 'g globals \<Rightarrow> 'g run" where
  "main_loop P opt envs s =
     (if opt_nmsgs opt = 0 \<or> msgs s < opt_nmsgs opt
      then (case envs of
              [] \<Rightarrow> \<lparr>ending = Running, final = s, rounds = [], run_out = []\<rparr>
            | e # es \<Rightarrow>
                if sigint e
                then \<lparr>ending = (case snd (signal_handler Main_thread s) of
                                   Exited c \<Rightarrow> Exit c | _ \<Rightarrow> Running),
                       final = s, rounds = [],
                       run_out = fst (signal_handler Main_thread s)\<rparr>
                else
                  let rd = run_round P opt e s
                  in (case rd_ending rd of
                        Some en \<Rightarrow>
                          \<lparr>ending = en, final = rd_state rd, rounds = [rd_rec rd],
                           run_out = rd_out rd\<rparr>
                      | None \<Rightarrow>
                          let r = main_loop P opt es
                                    ((rd_state rd)\<lparr>msgs := msgs (rd_state rd) + 1\<rparr>)
                          in r\<lparr>rounds := rd_rec rd # rounds r,
                                run_out := rd_out rd @ run_out r\<rparr>))
      else \<lparr>ending = Exit 0, final = s, rounds = [],
             run_out = [print_stats Main_thread s]\<rparr>)"

section \<open>The options and main\<close>

text \<open>
  The option loop of \<open>main\<close> over \<open>argv[1..]\<close>. \<open>None\<close> is \<open>usage()\<close>, which prints the
  help text and calls \<open>exit(1)\<close>. \<open>strtoul\<close> is the C library's; its result is stored in
  a \<open>uint32_t\<close>.
\<close>

fun parse_args :: "(string \<Rightarrow> nat) \<Rightarrow> string list \<Rightarrow> opts \<Rightarrow> opts option" where
  "parse_args strtoul [] opt = Some opt"
| "parse_args strtoul (a # rest) opt =
     (if a = ''-h'' \<or> a = ''--help'' then None
      else if a = ''-i'' \<or> a = ''--seed''
      then (case rest of
              [] \<Rightarrow> None
            | v # rest' \<Rightarrow> parse_args strtoul rest' (opt\<lparr>opt_seed := word_of_nat (strtoul v)\<rparr>))
      else if a = ''-l'' \<or> a = ''--len''
      then (case rest of
              [] \<Rightarrow> None
            | v # rest' \<Rightarrow>
                let opt1 = opt\<lparr>opt_msglen := word_of_nat (strtoul v)\<rparr>
                in if opt_msglen opt1 = 0 \<or> MAX_MAX_MSG_LEN < opt_msglen opt1 then None
                   else parse_args strtoul rest' opt1)
      else if a = ''-n''
      then (case rest of
              [] \<Rightarrow> None
            | v # rest' \<Rightarrow> parse_args strtoul rest' (opt\<lparr>opt_nmsgs := word_of_nat (strtoul v)\<rparr>))
      else if a = ''-s'' \<or> a = ''--speed''
      then (case rest of
              [] \<Rightarrow> None
            | v # rest' \<Rightarrow> parse_args strtoul rest' (opt\<lparr>opt_speed := word_of_nat (strtoul v)\<rparr>))
      else if a = ''-v'' \<or> a = ''--verbose''
      then parse_args strtoul rest (opt\<lparr>opt_verbose := True\<rparr>)
      else if opt_txdev opt = None
      then parse_args strtoul rest (opt\<lparr>opt_txdev := Some a\<rparr>)
      else if opt_rxdev opt = None
      then parse_args strtoul rest (opt\<lparr>opt_rxdev := Some a\<rparr>)
      else None)"

text \<open>
  What the option loop keeps true of \<open>opt_msglen\<close>: it is not zero and not above
  \<open>MAX_MAX_MSG_LEN\<close> (the default is 1024, and \<open>-l\<close> calls \<open>usage()\<close> otherwise).
\<close>

definition msglen_ok :: "opts \<Rightarrow> bool" where
  "msglen_ok opt \<longleftrightarrow> opt_msglen opt \<noteq> 0 \<and> opt_msglen opt \<le> MAX_MAX_MSG_LEN"

datatype 'g process = Usage | Ran "'g run"

definition main ::
  "'g brahe \<Rightarrow> (string \<Rightarrow> nat) \<Rightarrow> string list \<Rightarrow> round_env list \<Rightarrow> 'g process" where
  "main P strtoul args envs =
     (case parse_args strtoul args opts_init of
        None \<Rightarrow> Usage
      | Some opt \<Rightarrow>
          if opt_rxdev opt = None then Usage
          else Ran (main_loop P opt envs (globals_init (brahe_prng_init P (opt_seed opt)))))"


section \<open>The generated sequence, as the specification describes it\<close>

text \<open>
  The specification's account of what the generator is used for, round after round: the
  message builder draws the length and the bytes of the message (before the workers are
  started), then the receive worker draws the truncation length, once; nothing else draws.
  \<open>gen_rounds P N n g\<close> is the sequence of messages and truncation lengths of \<open>n\<close> such
  rounds with maximum length \<open>N\<close>, from the generator state \<open>g\<close>. It follows the
  specification's words, not \<open>main\<close>, and is what the runs of \<open>main_loop\<close> are compared
  with.
\<close>

fun gen_rounds :: "'g brahe \<Rightarrow> u32 \<Rightarrow> nat \<Rightarrow> 'g \<Rightarrow> (msg \<times> u32) list" where
  "gen_rounds P N 0 g = []"
| "gen_rounds P N (Suc n) g =
     (let (m, g1) = msg_gen P (- N) g;
          (t, g2) = brahe_prng_range P g1 1 (msg_len m)
      in (m, t) # gen_rounds P N n g2)"


text \<open>The truncation length of a round, as a number (0 if none was drawn).\<close>

definition trunc_len :: "round_rec \<Rightarrow> nat" where
  "trunc_len x = (case r_trunc x of Some t \<Rightarrow> unat t | None \<Rightarrow> 0)"

section \<open>A small run, for evaluating theorems\<close>

text \<open>
  \<open>fifotest -i 7 -l 8 -n 1 /dev/ttyS0 /dev/ttyS1\<close> with the generator \<open>toy\<close>: one round,
  with a message of 7 bytes and the truncation length 1. In \<open>toy_round\<close> the transmit
  endpoint takes the 7 bytes and the receive endpoint delivers the first; in
  \<open>toy_round_failing\<close> the write fails with an error after the receive worker has returned.
\<close>

abbreviation toy_strtoul :: "string \<Rightarrow> nat" where
  "toy_strtoul \<equiv> \<lambda>a. if a = ''7'' then 7 else if a = ''8'' then 8 else if a = ''1'' then 1 else 0"

abbreviation toy_args :: "string list" where
  "toy_args \<equiv> [''-i'', ''7'', ''-l'', ''8'', ''-n'', ''1'', ''/dev/ttyS0'', ''/dev/ttyS1'']"

abbreviation toy_opts :: opts where
  "toy_opts \<equiv> opts_init\<lparr>opt_seed := 7, opt_msglen := 8, opt_nmsgs := 1,
     opt_txdev := Some ''/dev/ttyS0'', opt_rxdev := Some ''/dev/ttyS1''\<rparr>"

abbreviation toy_msg :: msg where
  "toy_msg \<equiv> \<lparr>msg_len = 7, msg_buf = [52, 93, 210, 163, 160, 89, 30]\<rparr>"

abbreviation toy_round :: round_env where
  "toy_round \<equiv> \<lparr>sigint = False, tx_first = True, rx_dev = Dev_ok, rx_evs = [Rx_data [52]],
     tx_dev = Dev_ok, tx_evs = [Tx_accept 7]\<rparr>"


abbreviation toy_run :: "u32 run" where
  "toy_run \<equiv> main_loop toy toy_opts [toy_round]
     (globals_init (brahe_prng_init toy (opt_seed toy_opts)))"


section \<open>Facts about the generator and msg_gen\<close>

declare fmt_u.simps [simp del] fmt_x.simps [simp del] print_buffer_from.simps [simp del]
  cmp_buffer_from.simps [simp del] receive_loop.simps [simp del] parse_args.simps(2) [simp del]

lemma toy_range_in_bounds: "range_in_bounds toy"
  by (simp add: range_in_bounds_def toy_def)

lemma sint_neg_small:
  fixes n :: u32
  assumes a: "1 \<le> n" and b: "n \<le> 0x7FFFFFFF"
  shows "sint (- n) = - uint n"
proof -
  have u1: "1 \<le> uint n" using a by (simp add: word_le_def)
  have u2: "uint n \<le> 2147483647" using b by (simp add: word_le_def)
  have s: "sint n = uint n"
    using u1 u2 by (simp add: sint_uint signed_take_bit_int_eq_self)
  have "sint (- n) = signed_take_bit 31 (- sint n)" by (simp add: sint_word_minus)
  also have "\<dots> = - uint n"
    using u1 u2 by (simp add: s signed_take_bit_int_eq_self)
  finally show ?thesis .
qed

lemma neg_sless: "1 \<le> (n::u32) \<Longrightarrow> n \<le> 0x7FFFFFFF \<Longrightarrow> - n <s 0"
  using sint_neg_small [of n] by (simp add: word_sless_alt word_le_def)

text \<open>
  The filling loop, in closed form: byte \<open>i\<close> is the value of the \<open>i\<close>-th call of
  \<open>brahe_prng_next\<close>, and the generator has made \<open>n\<close> steps.
\<close>

lemma fill_eq:
  "fill P n g =
     (map (\<lambda>i. ucast (fst (brahe_prng_next P ((after_next P ^^ i) g)))) [0..<n],
      (after_next P ^^ n) g)"
proof (induction n arbitrary: g)
  case 0
  show ?case by simp
next
  case (Suc n)
  have shift: "map (\<lambda>i. (ucast (fst (brahe_prng_next P ((after_next P ^^ i) (after_next P g)))) :: byte)) [0..<n]
      = map (\<lambda>i. ucast (fst (brahe_prng_next P ((after_next P ^^ i) g)))) [Suc 0..<Suc n]"
    by (simp only: map_Suc_upt [symmetric] map_map o_def funpow_Suc_right)
  show ?case
    apply (simp only: fill.simps Suc.IH)
    apply (simp add: split_beta after_next_def [symmetric] shift del: upt_Suc)
    apply (simp add: upt_conv_Cons funpow_swap1 del: upt_Suc)
    done
qed

section \<open>C6: the message builder in variable-length mode\<close>

text \<open>
  C6. \<open>msg_gen(-N)\<close> with \<open>1 \<le> N\<close> (and \<open>N\<close> a positive \<open>int\<close>; \<open>main\<close> passes
  \<open>N = opt_msglen \<le> 4096\<close>), on a generator whose range operation keeps its bounds:
  the length of the message is the value \<open>L\<close> that \<open>brahe_prng_range(1, N)\<close> draws, so
  \<open>1 \<le> L \<le> N\<close>; the body has \<open>L\<close> bytes and byte \<open>i\<close> is the value of the \<open>i\<close>-th
  following call of \<open>brahe_prng_next\<close>, in order; the generator is left in the state
  reached by the one range draw followed by \<open>L\<close> byte draws, \<open>1 + L\<close> draws in all.
\<close>

theorem msg_gen_variable:
  assumes "range_in_bounds P" and "1 \<le> N" and "N \<le> 0x7FFFFFFF"
  shows "(let (L, g1) = brahe_prng_range P g 1 N;
              (m, g') = msg_gen P (- N) g
          in msg_len m = L \<and> 1 \<le> L \<and> L \<le> N \<and>
             length (msg_buf m) = unat L \<and>
             msg_buf m = map (\<lambda>i. ucast (fst (brahe_prng_next P ((after_next P ^^ i) g1))))
                           [0..<unat L] \<and>
             g' = (after_next P ^^ unat L) g1)"
proof -
  have neg: "- N <s 0" using assms(2,3) by (rule neg_sless)
  have rng: "1 \<le> fst (brahe_prng_range P g 1 N) \<and> fst (brahe_prng_range P g 1 N) \<le> N"
    using assms(1,2) by (simp add: range_in_bounds_def)
  show ?thesis
    using rng by (simp add: msg_gen_def neg fill_eq split_beta)
qed

text \<open>
  The theorem at \<open>N = 8\<close> on the small generator in state 5: the length drawn is 5, the
  five bytes are the next five values, and the state is the one after those draws.
\<close>

theorem msg_gen_variable_witness:
  "range_in_bounds toy \<and> (1::u32) \<le> 8 \<and> (8::u32) \<le> 0x7FFFFFFF \<and>
   brahe_prng_range toy 5 1 8 = (5, 1222621274) \<and>
   msg_gen toy (- 8) 5 = (\<lparr>msg_len = 5, msg_buf = [90, 139, 104, 129, 38]\<rparr>, 3849114727)"
proof -
  have r: "brahe_prng_range toy 5 1 8 = (5, 1222621274)"
    by (simp add: toy_def)
  have b: "map (\<lambda>i. (ucast (fst (brahe_prng_next toy ((after_next toy ^^ i) 1222621274))) :: byte)) [0..<5]
     = [90, 139, 104, 129, 38]"
    by code_simp
  have f: "(after_next toy ^^ 5) 1222621274 = 3849114727"
    by code_simp
  show ?thesis
    using msg_gen_variable [OF toy_range_in_bounds, of 8 5] toy_range_in_bounds
    by (cases "msg_gen toy (- 8) 5") (simp add: r b f)
qed

section \<open>Facts about read and the receive loop\<close>

lemma sys_read_Some:
  "sys_read evs count = Some (res, errno, bs, rest) \<Longrightarrow>
     (res = - 1 \<and> bs = []) \<or> (res = int (length bs) \<and> length bs \<le> count)"
  by (induction evs count rule: sys_read.induct) (auto split: if_splits)

lemma receive_loop_done: "\<not> avail < len \<Longrightarrow>
  receive_loop len evs avail s =
    \<lparr>rx_outcome = Returned, rx_state = s, rx_out = [], rx_trunc = None, rx_reads = []\<rparr>"
  by (simp add: receive_loop.simps)

lemma receive_loop_blocked: "avail < len \<Longrightarrow> sys_read evs (len - avail) = None \<Longrightarrow>
  receive_loop len evs avail s =
    \<lparr>rx_outcome = Blocked, rx_state = s, rx_out = [], rx_trunc = None,
     rx_reads = [(avail, len - avail)]\<rparr>"
  by (simp add: receive_loop.simps [of len evs avail s])

lemma receive_loop_error:
  "avail < len \<Longrightarrow> sys_read evs (len - avail) = Some (res, errno, bs, rest) \<Longrightarrow> res < 0 \<Longrightarrow>
  receive_loop len evs avail s =
    \<lparr>rx_outcome = Exited (- 1), rx_state = s,
     rx_out = [pr_error Rx_thread (''Read error '' @ fmt_d errno @ NL)],
     rx_trunc = None, rx_reads = [(avail, len - avail)]\<rparr>"
  by (simp add: receive_loop.simps [of len evs avail s])

lemma receive_loop_overrun:
  "avail < len \<Longrightarrow> sys_read evs (len - avail) = Some (res, errno, bs, rest) \<Longrightarrow> \<not> res < 0 \<Longrightarrow>
   length (rx_static_buf s) < avail + nat res \<Longrightarrow>
  receive_loop len evs avail s =
    \<lparr>rx_outcome = Overrun, rx_state = s, rx_out = [], rx_trunc = None,
     rx_reads = [(avail, len - avail)]\<rparr>"
  by (simp add: receive_loop.simps [of len evs avail s])

lemma receive_loop_step:
  "avail < len \<Longrightarrow> sys_read evs (len - avail) = Some (res, errno, bs, rest) \<Longrightarrow> \<not> res < 0 \<Longrightarrow>
   \<not> length (rx_static_buf s) < avail + nat res \<Longrightarrow>
   r = receive_loop len rest (avail + nat res)
         (s\<lparr>rx_static_buf := buf_store (rx_static_buf s) avail bs,
            rx_bytes := rx_bytes s + word_of_int res\<rparr>) \<Longrightarrow>
  receive_loop len evs avail s = r\<lparr>rx_reads := (avail, len - avail) # rx_reads r\<rparr>"
  by (simp add: receive_loop.simps [of len evs avail s] Let_def)

lemma receive_loop_cases [case_names finished blocked error overrun step]:
  assumes "\<not> avail < len \<Longrightarrow> R"
    and "avail < len \<Longrightarrow> sys_read evs (len - avail) = None \<Longrightarrow> R"
    and "\<And>res errno bs rest. avail < len \<Longrightarrow>
           sys_read evs (len - avail) = Some (res, errno, bs, rest) \<Longrightarrow> res < 0 \<Longrightarrow> R"
    and "\<And>res errno bs rest. avail < len \<Longrightarrow>
           sys_read evs (len - avail) = Some (res, errno, bs, rest) \<Longrightarrow> \<not> res < 0 \<Longrightarrow>
           length (rx_static_buf s) < avail + nat res \<Longrightarrow> R"
    and "\<And>res errno bs rest. avail < len \<Longrightarrow>
           sys_read evs (len - avail) = Some (res, errno, bs, rest) \<Longrightarrow> \<not> res < 0 \<Longrightarrow>
           \<not> length (rx_static_buf s) < avail + nat res \<Longrightarrow> R"
  shows R
proof (cases "avail < len")
  case False
  then show ?thesis by (rule assms(1))
next
  case True
  show ?thesis
  proof (cases "sys_read evs (len - avail)")
    case None
    with True show ?thesis by (rule assms(2))
  next
    case (Some q)
    obtain res errno bs rest where q: "q = (res, errno, bs, rest)" by (cases q) auto
    show ?thesis
      using True Some [unfolded q] assms(3,4,5) by blast
  qed
qed

lemma receive_loop_frame:
  "prng (rx_state (receive_loop len evs avail s)) = prng s \<and>
   tx_bytes (rx_state (receive_loop len evs avail s)) = tx_bytes s \<and>
   msgs (rx_state (receive_loop len evs avail s)) = msgs s \<and>
   rx_trunc (receive_loop len evs avail s) = None"
proof (induction len evs avail s rule: receive_loop.induct)
  case (1 len evs avail s)
  show ?case
  proof (cases rule: receive_loop_cases [where avail=avail and len=len and evs=evs and s=s])
    case finished
    then show ?thesis by (simp add: receive_loop_done)
  next
    case blocked
    then show ?thesis by (simp add: receive_loop_blocked)
  next
    case (error res errno bs rest)
    then show ?thesis by (simp add: receive_loop_error)
  next
    case (overrun res errno bs rest)
    then show ?thesis by (simp add: receive_loop_overrun)
  next
    case (step res errno bs rest)
    from "1.IH" [OF step(1,2) refl refl refl step(3,4)]
    show ?thesis by (simp add: receive_loop_step [OF step refl])
  qed
qed

lemma receive_loop_reads:
  "avail \<le> len \<Longrightarrow>
   \<forall>(off, cnt) \<in> set (rx_reads (receive_loop len evs avail s)).
      avail \<le> off \<and> off < len \<and> cnt = len - off"
proof (induction len evs avail s rule: receive_loop.induct)
  case (1 len evs avail s)
  show ?case
  proof (cases rule: receive_loop_cases [where avail=avail and len=len and evs=evs and s=s])
    case finished
    then show ?thesis by (simp add: receive_loop_done)
  next
    case blocked
    then show ?thesis by (simp add: receive_loop_blocked)
  next
    case (error res errno bs rest)
    then show ?thesis by (simp add: receive_loop_error)
  next
    case (overrun res errno bs rest)
    then show ?thesis by (simp add: receive_loop_overrun)
  next
    case (step res errno bs rest)
    from sys_read_Some [OF step(2)] step(1,3)
    have le: "avail + nat res \<le> len" by auto
    from "1.IH" [OF step(1,2) refl refl refl step(3,4) le]
    show ?thesis using step(1) by (fastforce simp add: receive_loop_step [OF step refl])
  qed
qed

lemma receive_loop_bounds:
  "avail \<le> len \<Longrightarrow> len \<le> length (rx_static_buf s) \<Longrightarrow>
   rx_outcome (receive_loop len evs avail s) \<noteq> Overrun \<and>
   length (rx_static_buf (rx_state (receive_loop len evs avail s))) = length (rx_static_buf s)"
proof (induction len evs avail s rule: receive_loop.induct)
  case (1 len evs avail s)
  show ?case
  proof (cases rule: receive_loop_cases [where avail=avail and len=len and evs=evs and s=s])
    case finished
    then show ?thesis by (simp add: receive_loop_done)
  next
    case blocked
    then show ?thesis by (simp add: receive_loop_blocked)
  next
    case (error res errno bs rest)
    then show ?thesis by (simp add: receive_loop_error)
  next
    case (overrun res errno bs rest)
    from sys_read_Some [OF overrun(2)] overrun(1,3)
    have "avail + nat res \<le> len" by auto
    with overrun(4) "1.prems"(2) have False by simp
    then show ?thesis ..
  next
    case (step res errno bs rest)
    from sys_read_Some [OF step(2)] step(1,3)
    have le: "avail + nat res \<le> len" and n: "nat res = length bs" by auto
    have len': "length (buf_store (rx_static_buf s) avail bs) = length (rx_static_buf s)"
      using le n "1.prems"(2) by (simp add: buf_store_def)
    from "1.IH" [OF step(1,2) refl refl refl step(3,4) le] "1.prems"(2) len'
    show ?thesis by (simp add: receive_loop_step [OF step refl])
  qed
qed

lemma receive_loop_returned:
  "avail \<le> len \<Longrightarrow> rx_outcome (receive_loop len evs avail s) = Returned \<Longrightarrow>
   rx_bytes (rx_state (receive_loop len evs avail s)) = rx_bytes s + word_of_nat (len - avail) \<and>
   rx_out (receive_loop len evs avail s) = []"
proof (induction len evs avail s rule: receive_loop.induct)
  case (1 len evs avail s)
  show ?case
  proof (cases rule: receive_loop_cases [where avail=avail and len=len and evs=evs and s=s])
    case finished
    then show ?thesis by (simp add: receive_loop_done)
  next
    case blocked
    with "1.prems"(2) show ?thesis by (simp add: receive_loop_blocked)
  next
    case (error res errno bs rest)
    with "1.prems"(2) show ?thesis by (simp add: receive_loop_error)
  next
    case (overrun res errno bs rest)
    with "1.prems"(2) show ?thesis by (simp add: receive_loop_overrun)
  next
    case (step res errno bs rest)
    from sys_read_Some [OF step(2)] step(1,3)
    have le: "avail + nat res \<le> len" and n: "0 \<le> res" by auto
    have w: "(word_of_int res :: u64) + word_of_nat (len - (avail + nat res)) =
               word_of_nat (len - avail)"
    proof -
      have "(word_of_int res :: u64) = word_of_nat (nat res)" using n by simp
      moreover have "len - avail = nat res + (len - (avail + nat res))" using le by simp
      ultimately show ?thesis by (simp only: of_nat_add)
    qed
    have ret: "rx_outcome (receive_loop len rest (avail + nat res)
         (s\<lparr>rx_static_buf := buf_store (rx_static_buf s) avail bs,
            rx_bytes := rx_bytes s + word_of_int res\<rparr>)) = Returned"
      using "1.prems"(2) by (simp add: receive_loop_step [OF step refl])
    from "1.IH" [OF step(1,2) refl refl refl step(3,4) le ret]
    show ?thesis by (simp add: receive_loop_step [OF step refl] add.assoc w)
  qed
qed

lemma buf_store_append:
  assumes "off + length bs + length cs \<le> length b"
  shows "buf_store (buf_store b off bs) (off + length bs) cs = buf_store b off (bs @ cs)"
proof -
  have o: "off \<le> length b" using assms by simp
  have t: "take (off + length bs) (take off b @ bs @ drop (off + length bs) b) = take off b @ bs"
    using o by simp
  have d: "drop (off + length bs + length cs) (take off b @ bs @ drop (off + length bs) b) =
             drop (off + length (bs @ cs)) b"
    using o by (simp add: add.commute add.left_commute)
  show ?thesis
    unfolding buf_store_def by (simp only: t d append_assoc)
qed

lemma buf_store_Nil: "buf_store b off [] = b"
  by (simp add: buf_store_def)

lemma receive_loop_chunks:
  "avail + sum_list (map length chunks) = len \<Longrightarrow> len \<le> length (rx_static_buf s) \<Longrightarrow>
   rx_outcome (receive_loop len (map Rx_data chunks) avail s) = Returned \<and>
   rx_static_buf (rx_state (receive_loop len (map Rx_data chunks) avail s)) =
     buf_store (rx_static_buf s) avail (concat chunks) \<and>
   length (rx_reads (receive_loop len (map Rx_data chunks) avail s)) \<le> length chunks"
proof (induction chunks arbitrary: avail s)
  case Nil
  then show ?case by (simp add: receive_loop_done buf_store_Nil)
next
  case (Cons c cs)
  show ?case
  proof (cases "avail < len")
    case False
    with Cons.prems have "avail = len" and z: "length c = 0" "sum_list (map length cs) = 0"
      by auto
    from z have cc: "concat cs = []" and c: "c = []"
      by (simp_all add: sum_list_eq_0_iff concat_eq_Nil_conv)
    show ?thesis using False by (simp add: receive_loop_done buf_store_Nil cc c)
  next
    case True
    have fit: "length c \<le> len - avail" using Cons.prems(1) by simp
    have rd: "sys_read (map Rx_data (c # cs)) (len - avail) =
                Some (int (length c), 0, c, map Rx_data cs)"
      using fit by simp
    have nov: "\<not> length (rx_static_buf s) < avail + nat (int (length c))"
      using fit True Cons.prems(2) by simp
    let ?s' = "s\<lparr>rx_static_buf := buf_store (rx_static_buf s) avail c,
                  rx_bytes := rx_bytes s + word_of_int (int (length c))\<rparr>"
    have len': "length (buf_store (rx_static_buf s) avail c) = length (rx_static_buf s)"
      using fit True Cons.prems(2) by (simp add: buf_store_def)
    have ih: "rx_outcome (receive_loop len (map Rx_data cs) (avail + length c) ?s') = Returned \<and>
       rx_static_buf (rx_state (receive_loop len (map Rx_data cs) (avail + length c) ?s')) =
         buf_store (rx_static_buf ?s') (avail + length c) (concat cs) \<and>
       length (rx_reads (receive_loop len (map Rx_data cs) (avail + length c) ?s')) \<le> length cs"
      using Cons.prems len' by (intro Cons.IH) simp_all
    have app: "buf_store (buf_store (rx_static_buf s) avail c) (avail + length c) (concat cs) =
          buf_store (rx_static_buf s) avail (c @ concat cs)"
      using Cons.prems by (intro buf_store_append) (simp add: length_concat)
    have step: "receive_loop len (map Rx_data (c # cs)) avail s =
       (receive_loop len (map Rx_data cs) (avail + length c) ?s')
         \<lparr>rx_reads := (avail, len - avail) #
            rx_reads (receive_loop len (map Rx_data cs) (avail + length c) ?s')\<rparr>"
      by (rule receive_loop_step [OF True rd _ nov]) simp_all
    show ?thesis unfolding step using ih app by simp
  qed
qed

lemma take_buf_store: "length bs \<le> length b \<Longrightarrow> take (length bs) (buf_store b 0 bs) = bs"
  by (simp add: buf_store_def)

section \<open>Facts about receive_start\<close>

lemma receive_start_fields:
  assumes "rng = brahe_prng_range P (prng s) 1 (msg_len m)"
    and "L = receive_loop (unat (fst rng)) evs 0 (s\<lparr>prng := snd rng\<rparr>)"
    and "r = receive_start P opt Dev_ok evs m s"
  shows "rx_state r = rx_state L" and "rx_reads r = rx_reads L" and "rx_trunc r = Some (fst rng)"
    and "rx_outcome r =
           (if rx_outcome L = Returned \<and>
               memcmp (rx_static_buf (rx_state L)) (msg_buf m) (unat (fst rng)) \<noteq> 0
            then Exited (- 1) else rx_outcome L)"
  using assms
  by (cases "rx_outcome L"; simp add: receive_start_def split_beta Let_def)+


lemma receive_loop_exited:
  "rx_outcome (receive_loop len evs avail s) = Exited c \<Longrightarrow>
   c = - 1 \<and> (\<exists>e. rx_out (receive_loop len evs avail s) =
                     [pr_error Rx_thread (''Read error '' @ fmt_d e @ NL)])"
proof (induction len evs avail s rule: receive_loop.induct)
  case (1 len evs avail s)
  show ?case
  proof (cases rule: receive_loop_cases [where avail=avail and len=len and evs=evs and s=s])
    case finished
    with "1.prems" show ?thesis by (simp add: receive_loop_done)
  next
    case blocked
    with "1.prems" show ?thesis by (simp add: receive_loop_blocked)
  next
    case (error res errno bs rest)
    with "1.prems" show ?thesis by (auto simp add: receive_loop_error)
  next
    case (overrun res errno bs rest)
    with "1.prems" show ?thesis by (simp add: receive_loop_overrun)
  next
    case (step res errno bs rest)
    have ex: "rx_outcome (receive_loop len rest (avail + nat res)
         (s\<lparr>rx_static_buf := buf_store (rx_static_buf s) avail bs,
            rx_bytes := rx_bytes s + word_of_int res\<rparr>)) = Exited c"
      using "1.prems" by (simp add: receive_loop_step [OF step refl])
    from "1.IH" [OF step(1,2) refl refl refl step(3,4) ex]
    show ?thesis by (simp add: receive_loop_step [OF step refl])
  qed
qed


section \<open>Facts about the option loop\<close>

lemma parse_args_unfold:
  assumes "parse_args strtoul (a # rest) opt = Some opt'" and "msglen_ok opt"
  shows "\<exists>R Q. length R \<le> length rest \<and> msglen_ok Q \<and> parse_args strtoul R Q = Some opt'"
proof -
  have upd: "msglen_ok (opt\<lparr>opt_seed := x\<rparr>)" "msglen_ok (opt\<lparr>opt_nmsgs := x\<rparr>)"
    "msglen_ok (opt\<lparr>opt_speed := x\<rparr>)" "msglen_ok (opt\<lparr>opt_verbose := b\<rparr>)"
    "msglen_ok (opt\<lparr>opt_txdev := d\<rparr>)" "msglen_ok (opt\<lparr>opt_rxdev := d\<rparr>)" for x b d
    using assms(2) by (simp_all add: msglen_ok_def)
  have fin: "\<exists>R Q. length R \<le> n \<and> msglen_ok Q \<and> parse_args strtoul R Q = Some opt'"
    if "parse_args strtoul R0 Q0 = Some opt'" "msglen_ok Q0" "length R0 \<le> n" for R0 Q0 n
    using that by blast
  from assms(1) show ?thesis
    apply (simp only: parse_args.simps(2) Let_def split: if_splits list.splits)
    apply (simp_all only: option.distinct)
    apply (erule fin, (rule upd | simp add: msglen_ok_def not_less), simp)+
    done
qed

lemma parse_args_msglen:
  "parse_args strtoul args opt = Some opt' \<Longrightarrow> msglen_ok opt \<Longrightarrow> msglen_ok opt'"
proof (induction args arbitrary: opt rule: length_induct)
  case (1 args)
  show ?case
  proof (cases args)
    case Nil
    with "1.prems" show ?thesis by simp
  next
    case (Cons a rest)
    from parse_args_unfold [OF "1.prems"(1) [unfolded Cons] "1.prems"(2)]
    obtain R Q where "length R \<le> length rest" "msglen_ok Q" "parse_args strtoul R Q = Some opt'"
      by blast
    with "1.IH" Cons show ?thesis by (metis length_Cons le_imp_less_Suc)
  qed
qed

lemma opts_init_ok: "msglen_ok opts_init"
  by (simp add: msglen_ok_def opts_init_def DEFAULT_MAX_MSG_LEN_def MAX_MAX_MSG_LEN_def)

section \<open>C1: the transmit worker and short writes\<close>

text \<open>
  C1, as the specification states it, fails: \<open>transmit_start\<close> calls \<open>write\<close> once and
  does not loop. On a message of two bytes and an endpoint that takes one byte per call
  (two short writes whose sizes sum to the length), the worker sends one byte, adds 1 to
  \<open>tx_bytes\<close>, and ends the process with \<open>exit(-1)\<close> (\<open>Short write 1 < 2\<close>).
\<close>

theorem transmit_short_write_counterexample:
  "sum_list [1, 1] = unat (msg_len \<lparr>msg_len = 2, msg_buf = [7, 9]\<rparr>) \<and>
   tx_outcome (transmit_start opts_init Dev_ok [Tx_accept 1, Tx_accept 1]
     \<lparr>msg_len = 2, msg_buf = [7, 9]\<rparr> (globals_init (brahe_prng_init toy 42))) = Exited (- 1) \<and>
   tx_sent (transmit_start opts_init Dev_ok [Tx_accept 1, Tx_accept 1]
     \<lparr>msg_len = 2, msg_buf = [7, 9]\<rparr> (globals_init (brahe_prng_init toy 42))) = [7] \<and>
   tx_bytes (tx_state (transmit_start opts_init Dev_ok [Tx_accept 1, Tx_accept 1]
     \<lparr>msg_len = 2, msg_buf = [7, 9]\<rparr> (globals_init (brahe_prng_init toy 42)))) = 1"
  by code_simp

text \<open>
  C1, amended. The transmit worker issues one \<open>write\<close> of the whole body and never
  retries; what the endpoint does after that first call (\<open>rest\<close>) has no influence. If the
  call takes all \<open>msg->len\<close> bytes the worker returns, having sent exactly the body and
  added \<open>msg->len\<close> to \<open>tx_bytes\<close>. If it takes fewer bytes, the worker has sent that
  prefix, adds its size to \<open>tx_bytes\<close> and calls \<open>exit(-1)\<close>. If it fails, nothing is sent
  or counted and the worker calls \<open>exit(-1)\<close>.
\<close>

theorem transmit_start_single_write:
  assumes "length (msg_buf m) = unat (msg_len m)"
  shows "(let t = transmit_start opt Dev_ok (ev # rest) m s
          in case ev of
               Tx_error e \<Rightarrow>
                 tx_outcome t = Exited (- 1) \<and> tx_sent t = [] \<and> tx_state t = s
             | Tx_accept n \<Rightarrow>
                 if unat (msg_len m) \<le> n
                 then tx_outcome t = Returned \<and> tx_sent t = msg_buf m \<and>
                      tx_state t = s\<lparr>tx_bytes := tx_bytes s + ucast (msg_len m)\<rparr>
                 else tx_outcome t = Exited (- 1) \<and> tx_sent t = take n (msg_buf m) \<and>
                      tx_state t = s\<lparr>tx_bytes := tx_bytes s + word_of_nat n\<rparr>)"
proof (cases ev)
  case (Tx_error e)
  then show ?thesis by (simp add: transmit_start_def Let_def)
next
  case (Tx_accept n)
  show ?thesis
  proof (cases "unat (msg_len m) \<le> n")
    case True
    then have "min n (unat (msg_len m)) = unat (msg_len m)"
      and "\<not> int n < uint (msg_len m)"
      using uint_nat [of "msg_len m"] by linarith+
    with True assms Tx_accept show ?thesis
      by (simp add: transmit_start_def Let_def)
  next
    case False
    then have "min n (unat (msg_len m)) = n"
      and "int n < uint (msg_len m)"
      using uint_nat [of "msg_len m"] by linarith+
    with False assms Tx_accept show ?thesis
      by (simp add: transmit_start_def Let_def)
  qed
qed

text \<open>The amended statement on an endpoint that takes both bytes of a two-byte message.\<close>

theorem transmit_start_single_write_witness:
  "length (msg_buf \<lparr>msg_len = 2, msg_buf = [7, 9]\<rparr>) = unat (msg_len \<lparr>msg_len = 2, msg_buf = [7, 9]\<rparr>) \<and>
   tx_outcome (transmit_start opts_init Dev_ok [Tx_accept 2] \<lparr>msg_len = 2, msg_buf = [7, 9]\<rparr>
     (globals_init (brahe_prng_init toy 42))) = Returned \<and>
   tx_sent (transmit_start opts_init Dev_ok [Tx_accept 2] \<lparr>msg_len = 2, msg_buf = [7, 9]\<rparr>
     (globals_init (brahe_prng_init toy 42))) = [7, 9] \<and>
   tx_bytes (tx_state (transmit_start opts_init Dev_ok [Tx_accept 2] \<lparr>msg_len = 2, msg_buf = [7, 9]\<rparr>
     (globals_init (brahe_prng_init toy 42)))) = 2"
  using transmit_start_single_write [of "\<lparr>msg_len = 2, msg_buf = [7, 9]\<rparr>" opts_init "Tx_accept 2" "[]"
    "globals_init (brahe_prng_init toy 42)"]
  by (simp add: Let_def globals_init_def)

section \<open>Further facts used by several claims\<close>

lemma msg_gen_neg:
  assumes "1 \<le> N" and "N \<le> 0x7FFFFFFF"
  shows "msg_gen P (- N) g =
     (\<lparr>msg_len = fst (brahe_prng_range P g 1 N),
       msg_buf = map (\<lambda>i. ucast (fst (brahe_prng_next P
                   ((after_next P ^^ i) (snd (brahe_prng_range P g 1 N))))))
                   [0..<unat (fst (brahe_prng_range P g 1 N))]\<rparr>,
      (after_next P ^^ unat (fst (brahe_prng_range P g 1 N))) (snd (brahe_prng_range P g 1 N)))"
proof -
  have neg: "- N <s 0" using assms by (rule neg_sless)
  show ?thesis by (simp add: msg_gen_def neg fill_eq split_beta)
qed

lemma cmp_bytes_eq: "length xs = length ys \<Longrightarrow> cmp_bytes xs ys = 0 \<longleftrightarrow> xs = ys"
  by (induction xs ys rule: list_induct2) (auto simp add: word_uint_eq_iff)

lemma memcmp_eq:
  "n \<le> length a \<Longrightarrow> n \<le> length b \<Longrightarrow> memcmp a b n = 0 \<longleftrightarrow> take n a = take n b"
  by (simp add: memcmp_def cmp_bytes_eq)

lemma msglen_ok_bounds:
  assumes "msglen_ok opt"
  shows "1 \<le> opt_msglen opt" and "opt_msglen opt \<le> 0x7FFFFFFF"
    and "opt_msglen opt \<le> MAX_MAX_MSG_LEN"
proof -
  from assms have nz: "opt_msglen opt \<noteq> 0" and le: "opt_msglen opt \<le> MAX_MAX_MSG_LEN"
    by (simp_all add: msglen_ok_def)
  from nz show "1 \<le> opt_msglen opt"
    by (simp add: word_le_def) (metis uint_0_iff uint_ge_0 zless_imp_add1_zle add_0 less_le)
  from le show "opt_msglen opt \<le> MAX_MAX_MSG_LEN" .
  have "MAX_MAX_MSG_LEN \<le> (0x7FFFFFFF :: u32)" by (simp add: MAX_MAX_MSG_LEN_def)
  with le show "opt_msglen opt \<le> 0x7FFFFFFF" by (rule order_trans)
qed

lemma range_bounds:
  "range_in_bounds P \<Longrightarrow> lo \<le> hi \<Longrightarrow>
   lo \<le> fst (brahe_prng_range P g lo hi) \<and> fst (brahe_prng_range P g lo hi) \<le> hi"
  by (simp add: range_in_bounds_def)

lemma msg_gen_toy_8_5:
  "msg_gen toy (- 8) 5 = (\<lparr>msg_len = 5, msg_buf = [90, 139, 104, 129, 38]\<rparr>, 3849114727)"
  by code_simp

lemma globals_init_buf_length: "length (rx_static_buf (globals_init g)) = unat MAX_MAX_MSG_LEN"
  by (simp add: globals_init_def)

section \<open>C2: diagnostics before a fatal exit\<close>




section \<open>C3: the truncation length and the read loop\<close>

text \<open>
  C3. On a generator whose range operation keeps its bounds and a message of at least one
  byte that fits the buffer, \<open>receive_start\<close> draws \<open>len = brahe_prng_range(1, msg->len)\<close>
  once (the generator is left in the state after that one draw), so
  \<open>1 \<le> len \<le> msg->len\<close>. Every call of \<open>read\<close> is made at an offset \<open>avail < len\<close>
  and asks for exactly \<open>len - avail\<close> bytes, whatever the endpoint does. When the endpoint
  delivers any sequence of chunks (empty ones included) whose sizes sum to \<open>len\<close>, the
  loop ends with exactly these \<open>len\<close> bytes at the start of the buffer, \<open>rx_bytes\<close> has
  grown by \<open>len\<close>, at most one \<open>read\<close> was made per chunk, and only then the prefix is
  compared: the worker returns when it equals the first \<open>len\<close> bytes of the message, and
  calls \<open>exit(-1)\<close> otherwise.
\<close>

theorem receive_start_truncation:
  assumes "range_in_bounds P" and "1 \<le> msg_len m"
    and "length (msg_buf m) = unat (msg_len m)"
    and "unat (msg_len m) \<le> length (rx_static_buf s)"
  shows "(let (len, g1) = brahe_prng_range P (prng s) 1 (msg_len m);
              r = receive_start P opt Dev_ok evs m s
          in 1 \<le> len \<and> len \<le> msg_len m \<and> rx_trunc r = Some len \<and> prng (rx_state r) = g1 \<and>
             (\<forall>(off, cnt) \<in> set (rx_reads r). off < unat len \<and> cnt = unat len - off) \<and>
             (evs = map Rx_data chunks \<and> sum_list (map length chunks) = unat len \<longrightarrow>
                take (unat len) (rx_static_buf (rx_state r)) = concat chunks \<and>
                rx_bytes (rx_state r) = rx_bytes s + ucast len \<and>
                length (rx_reads r) \<le> length chunks \<and>
                (rx_outcome r = Returned \<longleftrightarrow> concat chunks = take (unat len) (msg_buf m)) \<and>
                (rx_outcome r = Returned \<or> rx_outcome r = Exited (- 1))))"
proof -
  define rng where "rng = brahe_prng_range P (prng s) 1 (msg_len m)"
  define L where "L = receive_loop (unat (fst rng)) evs 0 (s\<lparr>prng := snd rng\<rparr>)"
  define r where "r = receive_start P opt Dev_ok evs m s"
  note f = receive_start_fields [OF rng_def L_def r_def]
  from range_bounds [OF assms(1,2)] have b: "1 \<le> fst rng" "fst rng \<le> msg_len m"
    by (simp_all add: rng_def)
  from b(2) have bn: "unat (fst rng) \<le> unat (msg_len m)" by (simp add: word_le_nat_alt)
  have p: "prng (rx_state r) = snd rng"
    using receive_loop_frame [of "unat (fst rng)" evs 0 "s\<lparr>prng := snd rng\<rparr>"]
    by (simp add: f(1) L_def)
  have rd: "\<forall>(off, cnt) \<in> set (rx_reads r). off < unat (fst rng) \<and> cnt = unat (fst rng) - off"
    using receive_loop_reads [of 0 "unat (fst rng)" evs "s\<lparr>prng := snd rng\<rparr>"]
    by (auto simp add: f(2) L_def)
  have ch: "take (unat (fst rng)) (rx_static_buf (rx_state r)) = concat chunks \<and>
            rx_bytes (rx_state r) = rx_bytes s + ucast (fst rng) \<and>
            length (rx_reads r) \<le> length chunks \<and>
            (rx_outcome r = Returned \<longleftrightarrow> concat chunks = take (unat (fst rng)) (msg_buf m)) \<and>
            (rx_outcome r = Returned \<or> rx_outcome r = Exited (- 1))"
    if e: "evs = map Rx_data chunks" and sm: "sum_list (map length chunks) = unat (fst rng)"
  proof -
    have fit: "unat (fst rng) \<le> length (rx_static_buf (s\<lparr>prng := snd rng\<rparr>))"
      using bn assms(4) by simp
    from receive_loop_chunks [of 0 chunks "unat (fst rng)" "s\<lparr>prng := snd rng\<rparr>"] sm fit
    have ret: "rx_outcome L = Returned"
      and buf: "rx_static_buf (rx_state L) = buf_store (rx_static_buf s) 0 (concat chunks)"
      and nrd: "length (rx_reads L) \<le> length chunks"
      by (simp_all add: L_def e)
    have lc: "length (concat chunks) = unat (fst rng)" using sm by (simp add: length_concat)
    have tk: "take (unat (fst rng)) (rx_static_buf (rx_state L)) = concat chunks"
      using take_buf_store [of "concat chunks" "rx_static_buf s"] lc bn assms(4)
      by (simp add: buf)
    have cnt: "rx_bytes (rx_state L) = rx_bytes s + ucast (fst rng)"
      using receive_loop_returned [of 0 "unat (fst rng)" evs "s\<lparr>prng := snd rng\<rparr>"] ret
      by (simp add: L_def)
    have mc: "memcmp (rx_static_buf (rx_state L)) (msg_buf m) (unat (fst rng)) = 0 \<longleftrightarrow>
              concat chunks = take (unat (fst rng)) (msg_buf m)"
    proof -
      have "length (rx_static_buf (rx_state L)) = length (rx_static_buf s)"
        using lc bn assms(4) by (simp add: buf buf_store_def)
      then have "unat (fst rng) \<le> length (rx_static_buf (rx_state L))"
        using bn assms(4) by simp
      moreover have "unat (fst rng) \<le> length (msg_buf m)" using bn assms(3) by simp
      ultimately show ?thesis by (simp add: memcmp_eq tk)
    qed
    show ?thesis
      using tk cnt nrd mc ret by (simp add: f)
  qed
  show ?thesis
    using b p rd ch f(3) unfolding Let_def split_beta rng_def [symmetric] r_def [symmetric]
    by blast
qed

text \<open>
  The theorem on the message \<open>[7, 9]\<close>, truncation length 2, delivered as one byte, an
  empty read and one more byte.
\<close>

theorem receive_start_truncation_witness:
  "range_in_bounds toy \<and> (1::u32) \<le> msg_len \<lparr>msg_len = 2, msg_buf = [7, 9]\<rparr> \<and>
   length (msg_buf \<lparr>msg_len = 2, msg_buf = [7, 9]\<rparr>) = unat (msg_len \<lparr>msg_len = 2, msg_buf = [7, 9]\<rparr>) \<and>
   unat (msg_len \<lparr>msg_len = 2, msg_buf = [7, 9]\<rparr>) \<le> length (rx_static_buf (globals_init (2::u32))) \<and>
   fst (brahe_prng_range toy (prng (globals_init 2)) 1 (msg_len \<lparr>msg_len = 2, msg_buf = [7, 9]\<rparr>)) = 2 \<and>
   sum_list (map length [[7], [], [9::byte]]) = 2 \<and>
   rx_trunc (receive_start toy opts_init Dev_ok (map Rx_data [[7], [], [9]])
      \<lparr>msg_len = 2, msg_buf = [7, 9]\<rparr> (globals_init 2)) = Some 2 \<and>
   rx_reads (receive_start toy opts_init Dev_ok (map Rx_data [[7], [], [9]])
      \<lparr>msg_len = 2, msg_buf = [7, 9]\<rparr> (globals_init 2)) = [(0, 2), (1, 1), (1, 1)] \<and>
   take 2 (rx_static_buf (rx_state (receive_start toy opts_init Dev_ok (map Rx_data [[7], [], [9]])
      \<lparr>msg_len = 2, msg_buf = [7, 9]\<rparr> (globals_init 2)))) = [7, 9] \<and>
   rx_bytes (rx_state (receive_start toy opts_init Dev_ok (map Rx_data [[7], [], [9]])
      \<lparr>msg_len = 2, msg_buf = [7, 9]\<rparr> (globals_init 2))) = 2 \<and>
   rx_outcome (receive_start toy opts_init Dev_ok (map Rx_data [[7], [], [9]])
      \<lparr>msg_len = 2, msg_buf = [7, 9]\<rparr> (globals_init 2)) = Returned"
proof -
  have h2: "(1::u32) \<le> msg_len \<lparr>msg_len = 2, msg_buf = [7, 9]\<rparr>" by simp
  have h3: "length (msg_buf \<lparr>msg_len = 2, msg_buf = [7, 9]\<rparr>) =
            unat (msg_len \<lparr>msg_len = 2, msg_buf = [7, 9]\<rparr>)" by simp
  have h4: "unat (msg_len \<lparr>msg_len = 2, msg_buf = [7, 9]\<rparr>) \<le>
            length (rx_static_buf (globals_init (2::u32)))"
    by (simp add: globals_init_buf_length MAX_MAX_MSG_LEN_def)
  have g: "brahe_prng_range toy (prng (globals_init (2::u32))) 1 2 = (2, 2207042835)"
    by code_simp
  have rb: "rx_bytes (globals_init (2::u32)) = 0" by (simp add: globals_init_def)
  have rd: "rx_reads (receive_start toy opts_init Dev_ok (map Rx_data [[7], [], [9]])
      \<lparr>msg_len = 2, msg_buf = [7, 9]\<rparr> (globals_init 2)) = [(0, 2), (1, 1), (1, 1)]"
    by code_simp
  show ?thesis
    using receive_start_truncation [OF toy_range_in_bounds h2 h3 h4,
        of opts_init "map Rx_data [[7], [], [9]]" "[[7], [], [9]]"]
      toy_range_in_bounds h4 g rd rb
    by (simp add: Let_def)
qed

section \<open>C10: the static receive buffer\<close>

text \<open>
  C10. When the options have been accepted by the option loop of \<open>main\<close> (which leaves
  \<open>1 \<le> opt_msglen \<le> MAX_MAX_MSG_LEN\<close>) and the buffer has its \<open>MAX_MAX_MSG_LEN\<close> bytes,
  then for the message of \<open>msg_gen(-opt_msglen)\<close> and any behaviour of the receive
  device: the message has at most 4096 bytes, the truncation length is at most the
  length of the message, every \<open>read\<close> is asked to store into a range
  \<open>[avail, avail + count)\<close> that ends inside the buffer, no \<open>read\<close> stores past its end,
  and the buffer keeps its size.
\<close>

theorem receive_buffer_in_bounds:
  assumes "range_in_bounds P" and "parse_args strtoul args opts_init = Some opt"
    and "length (rx_static_buf s) = unat MAX_MAX_MSG_LEN"
  shows "(let (m, g1) = msg_gen P (- opt_msglen opt) (prng s);
              r = receive_start P opt d evs m (s\<lparr>prng := g1\<rparr>)
          in msg_len m \<le> MAX_MAX_MSG_LEN \<and> length (msg_buf m) = unat (msg_len m) \<and>
             rx_outcome r \<noteq> Overrun \<and>
             (\<forall>(off, cnt) \<in> set (rx_reads r). off + cnt \<le> unat MAX_MAX_MSG_LEN) \<and>
             (\<forall>len. rx_trunc r = Some len \<longrightarrow> 1 \<le> len \<and> len \<le> msg_len m) \<and>
             length (rx_static_buf (rx_state r)) = unat MAX_MAX_MSG_LEN)"
proof -
  have ok: "msglen_ok opt" using assms(2) opts_init_ok by (rule parse_args_msglen)
  note nb = msglen_ok_bounds [OF ok]
  define m where "m = fst (msg_gen P (- opt_msglen opt) (prng s))"
  define g1 where "g1 = snd (msg_gen P (- opt_msglen opt) (prng s))"
  define s1 where "s1 = s\<lparr>prng := g1\<rparr>"
  define r where "r = receive_start P opt d evs m s1"
  have ml: "msg_len m = fst (brahe_prng_range P (prng s) 1 (opt_msglen opt))"
    and mb: "length (msg_buf m) = unat (msg_len m)"
    by (simp_all add: m_def msg_gen_neg [OF nb(1,2)])
  from range_bounds [OF assms(1) nb(1)] have lb: "1 \<le> msg_len m" "msg_len m \<le> opt_msglen opt"
    by (simp_all add: ml)
  from lb(2) nb(3) have mx: "msg_len m \<le> MAX_MAX_MSG_LEN" by (rule order_trans)
  have rest: "rx_outcome r \<noteq> Overrun \<and>
             (\<forall>(off, cnt) \<in> set (rx_reads r). off + cnt \<le> unat MAX_MAX_MSG_LEN) \<and>
             (\<forall>len. rx_trunc r = Some len \<longrightarrow> 1 \<le> len \<and> len \<le> msg_len m) \<and>
             length (rx_static_buf (rx_state r)) = unat MAX_MAX_MSG_LEN"
  proof (cases d)
    case Dev_fail
    then show ?thesis using assms(3) by (simp add: r_def receive_start_def s1_def)
  next
    case Dev_ok
    define rng where "rng = brahe_prng_range P (prng s1) 1 (msg_len m)"
    define L where "L = receive_loop (unat (fst rng)) evs 0 (s1\<lparr>prng := snd rng\<rparr>)"
    have r': "r = receive_start P opt Dev_ok evs m s1" using Dev_ok by (simp add: r_def)
    note f = receive_start_fields [OF rng_def L_def r']
    from range_bounds [OF assms(1) lb(1)] have b: "1 \<le> fst rng" "fst rng \<le> msg_len m"
      by (simp_all add: rng_def)
    from b(2) mx have "fst rng \<le> MAX_MAX_MSG_LEN" by (rule order_trans)
    then have bn: "unat (fst rng) \<le> unat MAX_MAX_MSG_LEN" by (simp add: word_le_nat_alt)
    have fit: "unat (fst rng) \<le> length (rx_static_buf (s1\<lparr>prng := snd rng\<rparr>))"
      using bn assms(3) by (simp add: s1_def)
    from receive_loop_bounds [of 0 "unat (fst rng)" "s1\<lparr>prng := snd rng\<rparr>" evs] fit
    have nov: "rx_outcome L \<noteq> Overrun"
      and ln: "length (rx_static_buf (rx_state L)) = unat MAX_MAX_MSG_LEN"
      using assms(3) by (simp_all add: L_def s1_def)
    have rd: "\<forall>(off, cnt) \<in> set (rx_reads r). off + cnt \<le> unat MAX_MAX_MSG_LEN"
      using receive_loop_reads [of 0 "unat (fst rng)" evs "s1\<lparr>prng := snd rng\<rparr>"] bn
      by (auto simp add: f(2) L_def)
    show ?thesis
      using nov ln rd b by (simp add: f)
  qed
  show ?thesis
    using mx mb rest
    unfolding Let_def split_beta m_def [symmetric] g1_def [symmetric] s1_def [symmetric]
      r_def [symmetric]
    by blast
qed

text \<open>
  The theorem for the arguments \<open>-l 8 /dev/ttyS0 /dev/ttyS1\<close> and an endpoint that holds
  eight bytes when the five-byte message is awaited.
\<close>

theorem receive_buffer_in_bounds_witness:
  "range_in_bounds toy \<and>
   parse_args (\<lambda>a. if a = ''8'' then 8 else 0) [''-l'', ''8'', ''/dev/ttyS0'', ''/dev/ttyS1'']
     opts_init =
     Some (opts_init\<lparr>opt_msglen := 8, opt_txdev := Some ''/dev/ttyS0'',
                      opt_rxdev := Some ''/dev/ttyS1''\<rparr>) \<and>
   length (rx_static_buf (globals_init (5::u32))) = unat MAX_MAX_MSG_LEN \<and>
   msg_gen toy (- 8) 5 = (\<lparr>msg_len = 5, msg_buf = [90, 139, 104, 129, 38]\<rparr>, 3849114727) \<and>
   rx_outcome (receive_start toy
      (opts_init\<lparr>opt_msglen := 8, opt_txdev := Some ''/dev/ttyS0'', opt_rxdev := Some ''/dev/ttyS1''\<rparr>)
      Dev_ok [Rx_data [90, 139, 104, 129, 38, 1, 2, 3]]
      \<lparr>msg_len = 5, msg_buf = [90, 139, 104, 129, 38]\<rparr>
      ((globals_init 5)\<lparr>prng := 3849114727\<rparr>)) \<noteq> Overrun \<and>
   length (rx_static_buf (rx_state (receive_start toy
      (opts_init\<lparr>opt_msglen := 8, opt_txdev := Some ''/dev/ttyS0'', opt_rxdev := Some ''/dev/ttyS1''\<rparr>)
      Dev_ok [Rx_data [90, 139, 104, 129, 38, 1, 2, 3]]
      \<lparr>msg_len = 5, msg_buf = [90, 139, 104, 129, 38]\<rparr>
      ((globals_init 5)\<lparr>prng := 3849114727\<rparr>)))) = unat MAX_MAX_MSG_LEN"
proof -
  have pa: "parse_args (\<lambda>a. if a = ''8'' then 8 else 0) [''-l'', ''8'', ''/dev/ttyS0'', ''/dev/ttyS1'']
     opts_init =
     Some (opts_init\<lparr>opt_msglen := 8, opt_txdev := Some ''/dev/ttyS0'',
                      opt_rxdev := Some ''/dev/ttyS1''\<rparr>)"
    by code_simp
  have p5: "prng (globals_init (5::u32)) = 5" by (simp add: globals_init_def)
  show ?thesis
    using receive_buffer_in_bounds [OF toy_range_in_bounds pa globals_init_buf_length,
        of 5 Dev_ok "[Rx_data [90, 139, 104, 129, 38, 1, 2, 3]]"]
      toy_range_in_bounds pa globals_init_buf_length [of "5::u32"]
    by (simp add: Let_def p5 msg_gen_toy_8_5)
qed

section \<open>Facts about cmp_line and cmp_buffer\<close>


lemma cmp_line_nonneg: "0 \<le> snd (cmp_line self a b1 b2 n)"
  by (simp add: cmp_line_def)

lemma cmp_line_zero:
  "snd (cmp_line self a b1 b2 n) = 0 \<longleftrightarrow> (\<forall>j<n. b1 ! j = b2 ! j)"
  by (auto simp add: cmp_line_def filter_empty_conv)

lemma take_eq_iff_nth:
  "n \<le> length xs \<Longrightarrow> n \<le> length ys \<Longrightarrow> take n xs = take n ys \<longleftrightarrow> (\<forall>j<n. xs ! j = ys ! j)"
  by (auto simp add: list_eq_iff_nth_eq)


lemma rows_upt: "(len + 15) div 16 \<le> k \<longleftrightarrow> \<not> 16 * k < (len::nat)"
proof -
  have a: "(len + 15) div 16 \<le> k \<longleftrightarrow> (len + 15) div 16 < Suc k"
    by (simp only: less_Suc_eq_le)
  have b: "(len + 15) div 16 < Suc k \<longleftrightarrow> len + 15 < Suc k * 16"
    by (rule div_less_iff_less_mult) simp
  have c: "len + 15 < Suc k * 16 \<longleftrightarrow> \<not> 16 * k < len"
    by (simp only: mult_Suc) linarith
  show ?thesis by (simp only: a b c)
qed




lemma diff_rows_iff:
  "(\<exists>i<(len::nat). P i) \<longleftrightarrow> (\<exists>k<(len + 15) div 16. \<exists>j<min (len - 16 * k) 16. P (16 * k + j))"
proof
  assume "\<exists>i<len. P i"
  then obtain i where i: "i < len" "P i" by blast
  have k: "i div 16 < (len + 15) div 16"
    using rows_upt [of len "i div 16"] i(1) by (simp add: not_le [symmetric])
  have j: "i mod 16 < min (len - 16 * (i div 16)) 16"
    using i(1) by (simp add: minus_mult_div_eq_mod [symmetric]) linarith
  have "P (16 * (i div 16) + i mod 16)" using i(2) by simp
  with k j show "\<exists>k<(len + 15) div 16. \<exists>j<min (len - 16 * k) 16. P (16 * k + j)" by blast
next
  assume "\<exists>k<(len + 15) div 16. \<exists>j<min (len - 16 * k) 16. P (16 * k + j)"
  then obtain k j where "j < min (len - 16 * k) 16" "P (16 * k + j)" by blast
  then have "16 * k + j < len" "P (16 * k + j)" by (simp_all add: less_diff_conv add.commute)
  then show "\<exists>i<len. P i" by blast
qed

section \<open>C7: the diff renderer\<close>



section \<open>C8: memcmp and the counts of cmp_line\<close>

text \<open>
  C8. For two buffers that both hold at least \<open>len\<close> bytes, the test of \<open>receive_start\<close>,
  \<open>memcmp(buf, msg->buf, len) != 0\<close>, holds if and only if the values \<open>cmp_line\<close> returns
  for the rows of \<open>cmp_buffer\<close> sum to more than zero.
\<close>

theorem memcmp_iff_row_counts:
  assumes "len \<le> length buf1" and "len \<le> length buf2"
  shows "memcmp buf1 buf2 len \<noteq> 0 \<longleftrightarrow>
         0 < sum_list (map (\<lambda>k. snd (cmp_line self (16 * k) (drop (16 * k) buf1)
                                        (drop (16 * k) buf2) (min (len - 16 * k) 16)))
                        [0..<(len + 15) div 16])"
proof -
  let ?c = "\<lambda>k. snd (cmp_line self (16 * k) (drop (16 * k) buf1) (drop (16 * k) buf2)
                      (min (len - 16 * k) 16))"
  have l: "memcmp buf1 buf2 len \<noteq> 0 \<longleftrightarrow> (\<exists>i<len. buf1 ! i \<noteq> buf2 ! i)"
    using assms by (simp add: memcmp_eq take_eq_iff_nth)
  have nn: "0 \<le> x" if "x \<in> set (map ?c [0..<(len + 15) div 16])" for x
    using that by (auto simp add: cmp_line_nonneg)
  have "0 \<le> sum_list (map ?c [0..<(len + 15) div 16])"
    by (rule sum_list_nonneg) (rule nn)
  then have "0 < sum_list (map ?c [0..<(len + 15) div 16]) \<longleftrightarrow>
        sum_list (map ?c [0..<(len + 15) div 16]) \<noteq> 0" by linarith
  also have "\<dots> \<longleftrightarrow> (\<exists>k<(len + 15) div 16. ?c k \<noteq> 0)"
  proof -
    have "sum_list (map ?c [0..<(len + 15) div 16]) = 0 \<longleftrightarrow>
          (\<forall>x \<in> set (map ?c [0..<(len + 15) div 16]). x = 0)"
      by (rule sum_list_nonneg_eq_0_iff) (rule nn)
    then show ?thesis by auto
  qed
  also have "\<dots> \<longleftrightarrow> (\<exists>k<(len + 15) div 16. \<exists>j<min (len - 16 * k) 16.
                 buf1 ! (16 * k + j) \<noteq> buf2 ! (16 * k + j))"
  proof -
    have "?c k \<noteq> 0 \<longleftrightarrow>
      (\<exists>j<min (len - 16 * k) 16. buf1 ! (16 * k + j) \<noteq> buf2 ! (16 * k + j))"
      if "k < (len + 15) div 16" for k
    proof -
      from that have "16 * k < len" using rows_upt [of len k] by simp
      with assms have "16 * k \<le> length buf1" "16 * k \<le> length buf2" by simp_all
      then show ?thesis by (simp add: cmp_line_zero)
    qed
    then show ?thesis by blast
  qed
  also have "\<dots> \<longleftrightarrow> (\<exists>i<len. buf1 ! i \<noteq> buf2 ! i)"
    by (rule diff_rows_iff [symmetric])
  finally show ?thesis using l by simp
qed

text \<open>The theorem on the same two buffers of 18 bytes: both sides hold.\<close>

theorem memcmp_iff_row_counts_witness:
  "18 \<le> length ([1, 2, 3, 4, 5, 6, 7, 8, 9, 10, 11, 12, 13, 14, 15, 16, 17, 18] :: byte list) \<and> 18 \<le> length ([1, 2, 3, 4, 5, 6, 7, 8, 9, 10, 11, 12, 13, 14, 15, 16, 17, 19] :: byte list) \<and>
   memcmp [1, 2, 3, 4, 5, 6, 7, 8, 9, 10, 11, 12, 13, 14, 15, 16, 17, 18] [1, 2, 3, 4, 5, 6, 7, 8, 9, 10, 11, 12, 13, 14, 15, 16, 17, 19] 18 \<noteq> 0 \<and>
   0 < sum_list (map (\<lambda>k. snd (cmp_line Rx_thread (16 * k) (drop (16 * k) [1, 2, 3, 4, 5, 6, 7, 8, 9, 10, 11, 12, 13, 14, 15, 16, 17, 18])
                                  (drop (16 * k) [1, 2, 3, 4, 5, 6, 7, 8, 9, 10, 11, 12, 13, 14, 15, 16, 17, 19]) (min (18 - 16 * k) 16)))
                     [0..<(18 + 15) div 16])"
proof -
  have h1: "18 \<le> length ([1, 2, 3, 4, 5, 6, 7, 8, 9, 10, 11, 12, 13, 14, 15, 16, 17, 18] :: byte list)" by simp
  have h2: "18 \<le> length ([1, 2, 3, 4, 5, 6, 7, 8, 9, 10, 11, 12, 13, 14, 15, 16, 17, 19] :: byte list)" by simp
  have m: "memcmp ([1, 2, 3, 4, 5, 6, 7, 8, 9, 10, 11, 12, 13, 14, 15, 16, 17, 18] :: byte list) [1, 2, 3, 4, 5, 6, 7, 8, 9, 10, 11, 12, 13, 14, 15, 16, 17, 19] 18 \<noteq> 0" by code_simp
  from memcmp_iff_row_counts [OF h1 h2, of Rx_thread] m
  have "0 < sum_list (map (\<lambda>k. snd (cmp_line Rx_thread (16 * k) (drop (16 * k) [1, 2, 3, 4, 5, 6, 7, 8, 9, 10, 11, 12, 13, 14, 15, 16, 17, 18])
                                  (drop (16 * k) [1, 2, 3, 4, 5, 6, 7, 8, 9, 10, 11, 12, 13, 14, 15, 16, 17, 19]) (min (18 - 16 * k) 16)))
                     [0..<(18 + 15) div 16])"
    by blast
  with h1 h2 m show ?thesis by (intro conjI)
qed

section \<open>Facts about the two workers\<close>

lemma transmit_start_frame:
  "prng (tx_state (transmit_start opt d evs m s)) = prng s \<and>
   rx_bytes (tx_state (transmit_start opt d evs m s)) = rx_bytes s \<and>
   msgs (tx_state (transmit_start opt d evs m s)) = msgs s \<and>
   rx_static_buf (tx_state (transmit_start opt d evs m s)) = rx_static_buf s"
  by (cases d; cases "sys_write evs (unat (msg_len m))")
     (auto simp add: transmit_start_def Let_def split: if_splits)

lemma sys_write_Some:
  "sys_write evs count = Some (res, errno) \<Longrightarrow> res = - 1 \<or> (0 \<le> res \<and> res \<le> int count)"
  by (induction evs count rule: sys_write.induct) auto

lemma transmit_start_returned:
  assumes "tx_outcome (transmit_start opt d evs m s) = Returned"
  shows "tx_bytes (tx_state (transmit_start opt d evs m s)) = tx_bytes s + ucast (msg_len m)"
proof (cases d)
  case Dev_fail
  with assms show ?thesis by (simp add: transmit_start_def)
next
  case Dev_ok
  show ?thesis
  proof (cases "sys_write evs (unat (msg_len m))")
    case None
    with assms Dev_ok show ?thesis by (simp add: transmit_start_def Let_def)
  next
    case (Some q)
    obtain res errno where q: "q = (res, errno)" by (cases q) auto
    from assms Dev_ok Some q have a: "\<not> res < 0" "\<not> res < uint (msg_len m)"
      by (auto simp add: transmit_start_def Let_def split: if_splits)
    from sys_write_Some [OF Some [unfolded q]] a(1) have "res \<le> int (unat (msg_len m))" by auto
    with a(2) uint_nat [of "msg_len m"] have "res = uint (msg_len m)" by linarith
    then have "(word_of_int res :: u64) = ucast (msg_len m)" by (simp only: ucast_eq)
    with a Dev_ok Some q show ?thesis
      by (simp add: transmit_start_def Let_def)
  qed
qed

lemma transmit_start_outcome:
  "tx_outcome (transmit_start opt d evs m s) \<noteq> Overrun \<and>
   (tx_outcome (transmit_start opt d evs m s) = Exited c \<longrightarrow> c = - 1)"
  by (cases d; cases "sys_write evs (unat (msg_len m))")
     (auto simp add: transmit_start_def Let_def split: if_splits)

lemma receive_start_frame:
  "tx_bytes (rx_state (receive_start P opt d evs m s)) = tx_bytes s \<and>
   msgs (rx_state (receive_start P opt d evs m s)) = msgs s"
proof (cases d)
  case Dev_fail
  then show ?thesis by (simp add: receive_start_def)
next
  case Dev_ok
  define rng where "rng = brahe_prng_range P (prng s) 1 (msg_len m)"
  define L where "L = receive_loop (unat (fst rng)) evs 0 (s\<lparr>prng := snd rng\<rparr>)"
  define r where "r = receive_start P opt Dev_ok evs m s"
  note f = receive_start_fields [OF rng_def L_def r_def]
  from receive_loop_frame [of "unat (fst rng)" evs 0 "s\<lparr>prng := snd rng\<rparr>"]
  show ?thesis using Dev_ok by (simp add: f(1) [unfolded r_def] L_def)
qed

lemma receive_start_trunc:
  "rx_trunc (receive_start P opt d evs m s) = None \<or>
   rx_trunc (receive_start P opt d evs m s) =
     Some (fst (brahe_prng_range P (prng s) 1 (msg_len m)))"
proof (cases d)
  case Dev_fail
  then show ?thesis by (simp add: receive_start_def)
next
  case Dev_ok
  then show ?thesis
    using receive_start_fields(3) [OF refl refl refl, of P opt evs m s] by simp
qed

lemma receive_start_exited:
  "rx_outcome (receive_start P opt d evs m s) = Exited c \<Longrightarrow> c = - 1"
proof (cases d)
  case Dev_fail
  assume "rx_outcome (receive_start P opt d evs m s) = Exited c"
  with Dev_fail show ?thesis by (simp add: receive_start_def)
next
  case Dev_ok
  assume a: "rx_outcome (receive_start P opt d evs m s) = Exited c"
  define rng where "rng = brahe_prng_range P (prng s) 1 (msg_len m)"
  define L where "L = receive_loop (unat (fst rng)) evs 0 (s\<lparr>prng := snd rng\<rparr>)"
  define r where "r = receive_start P opt Dev_ok evs m s"
  note f = receive_start_fields [OF rng_def L_def r_def]
  show ?thesis
  proof (cases "rx_outcome L = Returned")
    case True
    with a Dev_ok f(4) show ?thesis by (simp add: r_def split: if_splits)
  next
    case False
    with a Dev_ok f(4) have "rx_outcome L = Exited c" by (simp add: r_def split: if_splits)
    from receive_loop_exited [OF this [unfolded L_def]] show ?thesis by simp
  qed
qed

lemma receive_start_returned:
  assumes "rx_outcome (receive_start P opt d evs m s) = Returned"
  shows "prng (rx_state (receive_start P opt d evs m s)) =
           snd (brahe_prng_range P (prng s) 1 (msg_len m)) \<and>
         rx_bytes (rx_state (receive_start P opt d evs m s)) =
           rx_bytes s + ucast (fst (brahe_prng_range P (prng s) 1 (msg_len m))) \<and>
         rx_trunc (receive_start P opt d evs m s) =
           Some (fst (brahe_prng_range P (prng s) 1 (msg_len m)))"
proof (cases d)
  case Dev_fail
  with assms show ?thesis by (simp add: receive_start_def)
next
  case Dev_ok
  define rng where "rng = brahe_prng_range P (prng s) 1 (msg_len m)"
  define L where "L = receive_loop (unat (fst rng)) evs 0 (s\<lparr>prng := snd rng\<rparr>)"
  define r where "r = receive_start P opt Dev_ok evs m s"
  note f = receive_start_fields [OF rng_def L_def r_def]
  from assms Dev_ok f(4) have ret: "rx_outcome L = Returned"
    by (simp add: r_def split: if_splits)
  from receive_loop_returned [of 0 "unat (fst rng)" evs "s\<lparr>prng := snd rng\<rparr>"] ret
  have b: "rx_bytes (rx_state L) = rx_bytes s + ucast (fst rng)" by (simp add: L_def)
  from receive_loop_frame [of "unat (fst rng)" evs 0 "s\<lparr>prng := snd rng\<rparr>"]
  have p: "prng (rx_state L) = snd rng" by (simp add: L_def)
  show ?thesis
    using Dev_ok b p f(1,3) by (simp add: r_def rng_def)
qed

section \<open>Facts about a round\<close>

lemma stops_None: "stops a = None \<longleftrightarrow> a = Returned \<or> a = Blocked"
  by (cases a) simp_all

lemma stops_Exit: "stops a = Some (Exit c) \<longleftrightarrow> a = Exited c"
  by (cases a) simp_all

lemma stops_not_Running: "stops a \<noteq> Some Running"
  by (cases a) simp_all

lemma joined_None: "joined a b = None \<longleftrightarrow> a = Returned \<and> b = Returned"
  by (cases b) (simp_all add: joined_def)

lemma joined_Exit: "joined a b = Some (Exit c) \<longleftrightarrow> b = Exited c"
  by (cases b) (simp_all add: joined_def)

lemma joined_not_Running: "joined a b \<noteq> Some Running"
  by (cases b) (simp_all add: joined_def)

lemma run_round_tx_first:
  assumes "tx_first e"
    and "m = fst (msg_gen P (- opt_msglen opt) (prng s))"
    and "s1 = s\<lparr>prng := snd (msg_gen P (- opt_msglen opt) (prng s))\<rparr>"
    and "t = transmit_start opt (tx_dev e) (tx_evs e) m s1"
    and "r = receive_start P opt (rx_dev e) (rx_evs e) m (tx_state t)"
  shows "run_round P opt e s =
     (case stops (tx_outcome t) of
        Some en \<Rightarrow>
          \<lparr>rd_ending = Some en, rd_state = tx_state t,
           rd_rec = \<lparr>r_msg = m, r_trunc = None, r_done = False\<rparr>, rd_out = tx_out t\<rparr>
      | None \<Rightarrow>
          \<lparr>rd_ending = joined (tx_outcome t) (rx_outcome r), rd_state = rx_state r,
           rd_rec = \<lparr>r_msg = m, r_trunc = rx_trunc r,
                     r_done = (joined (tx_outcome t) (rx_outcome r) = None)\<rparr>,
           rd_out = tx_out t @ rx_out r\<rparr>)"
  using assms by (simp add: run_round_def split_beta Let_def split: option.splits)

lemma run_round_rx_first:
  assumes "\<not> tx_first e"
    and "m = fst (msg_gen P (- opt_msglen opt) (prng s))"
    and "s1 = s\<lparr>prng := snd (msg_gen P (- opt_msglen opt) (prng s))\<rparr>"
    and "r = receive_start P opt (rx_dev e) (rx_evs e) m s1"
    and "t = transmit_start opt (tx_dev e) (tx_evs e) m (rx_state r)"
  shows "run_round P opt e s =
     (case stops (rx_outcome r) of
        Some en \<Rightarrow>
          \<lparr>rd_ending = Some en, rd_state = rx_state r,
           rd_rec = \<lparr>r_msg = m, r_trunc = rx_trunc r, r_done = False\<rparr>, rd_out = rx_out r\<rparr>
      | None \<Rightarrow>
          \<lparr>rd_ending = joined (rx_outcome r) (tx_outcome t), rd_state = tx_state t,
           rd_rec = \<lparr>r_msg = m, r_trunc = rx_trunc r,
                     r_done = (joined (rx_outcome r) (tx_outcome t) = None)\<rparr>,
           rd_out = rx_out r @ tx_out t\<rparr>)"
  using assms by (simp add: run_round_def split_beta Let_def split: option.splits)

lemma run_round_facts:
  assumes "m = fst (msg_gen P (- opt_msglen opt) (prng s))"
    and "g1 = snd (msg_gen P (- opt_msglen opt) (prng s))"
    and "rng = brahe_prng_range P g1 1 (msg_len m)"
    and "rd = run_round P opt e s"
  shows "r_msg (rd_rec rd) = m"
    and "r_trunc (rd_rec rd) = None \<or> r_trunc (rd_rec rd) = Some (fst rng)"
    and "r_done (rd_rec rd) \<longleftrightarrow> rd_ending rd = None"
    and "rd_ending rd = None \<Longrightarrow>
           r_trunc (rd_rec rd) = Some (fst rng) \<and> prng (rd_state rd) = snd rng \<and>
           tx_bytes (rd_state rd) = tx_bytes s + ucast (msg_len m) \<and>
           rx_bytes (rd_state rd) = rx_bytes s + ucast (fst rng) \<and>
           msgs (rd_state rd) = msgs s"
    and "rd_ending rd = Some (Exit c) \<Longrightarrow> c = - 1"
    and "rd_ending rd \<noteq> Some Running"
proof -
  define s1 where "s1 = s\<lparr>prng := g1\<rparr>"
  have s1': "s1 = s\<lparr>prng := snd (msg_gen P (- opt_msglen opt) (prng s))\<rparr>"
    by (simp add: s1_def assms(2))
  have all: "r_msg (rd_rec rd) = m \<and>
    (r_trunc (rd_rec rd) = None \<or> r_trunc (rd_rec rd) = Some (fst rng)) \<and>
    (r_done (rd_rec rd) \<longleftrightarrow> rd_ending rd = None) \<and>
    (rd_ending rd = None \<longrightarrow>
           r_trunc (rd_rec rd) = Some (fst rng) \<and> prng (rd_state rd) = snd rng \<and>
           tx_bytes (rd_state rd) = tx_bytes s + ucast (msg_len m) \<and>
           rx_bytes (rd_state rd) = rx_bytes s + ucast (fst rng) \<and>
           msgs (rd_state rd) = msgs s) \<and>
    (rd_ending rd = Some (Exit c) \<longrightarrow> c = - 1) \<and>
    rd_ending rd \<noteq> Some Running"
  proof (cases "tx_first e")
    case True
    define t where "t = transmit_start opt (tx_dev e) (tx_evs e) m s1"
    define r where "r = receive_start P opt (rx_dev e) (rx_evs e) m (tx_state t)"
    note rr = run_round_tx_first [OF True assms(1) s1' t_def r_def]
    have tf: "prng (tx_state t) = g1" "rx_bytes (tx_state t) = rx_bytes s"
      "msgs (tx_state t) = msgs s"
      using transmit_start_frame [of opt "tx_dev e" "tx_evs e" m s1]
      by (simp_all add: t_def s1_def)
    have tr: "tx_outcome t = Returned \<Longrightarrow> tx_bytes (tx_state t) = tx_bytes s + ucast (msg_len m)"
      using transmit_start_returned [of opt "tx_dev e" "tx_evs e" m s1]
      by (simp add: t_def s1_def)
    have te: "tx_outcome t = Exited c \<Longrightarrow> c = - 1"
      using transmit_start_outcome [of opt "tx_dev e" "tx_evs e" m s1 c] by (simp add: t_def)
    have rt: "rx_trunc r = None \<or> rx_trunc r = Some (fst rng)"
      using receive_start_trunc [of P opt "rx_dev e" "rx_evs e" m "tx_state t"]
      by (simp add: r_def tf assms(3))
    have rf: "tx_bytes (rx_state r) = tx_bytes (tx_state t)" "msgs (rx_state r) = msgs s"
      using receive_start_frame [of P opt "rx_dev e" "rx_evs e" m "tx_state t"]
      by (simp_all add: r_def tf)
    have rret: "rx_outcome r = Returned \<Longrightarrow>
        prng (rx_state r) = snd rng \<and> rx_bytes (rx_state r) = rx_bytes s + ucast (fst rng) \<and>
        rx_trunc r = Some (fst rng)"
      using receive_start_returned [of P opt "rx_dev e" "rx_evs e" m "tx_state t"]
      by (simp add: r_def tf assms(3))
    have re: "rx_outcome r = Exited c \<Longrightarrow> c = - 1"
      using receive_start_exited [of P opt "rx_dev e" "rx_evs e" m "tx_state t" c]
      by (simp add: r_def)
    show ?thesis
    proof (cases "stops (tx_outcome t)")
      case None
      with rr have rd: "rd = \<lparr>rd_ending = joined (tx_outcome t) (rx_outcome r),
           rd_state = rx_state r,
           rd_rec = \<lparr>r_msg = m, r_trunc = rx_trunc r,
                     r_done = (joined (tx_outcome t) (rx_outcome r) = None)\<rparr>,
           rd_out = tx_out t @ rx_out r\<rparr>"
        by (simp add: assms(4))
      show ?thesis
        using rt rf rret re tr
        by (auto simp add: rd joined_None joined_Exit joined_not_Running)
    next
      case (Some en)
      with rr have rd: "rd = \<lparr>rd_ending = Some en, rd_state = tx_state t,
           rd_rec = \<lparr>r_msg = m, r_trunc = None, r_done = False\<rparr>, rd_out = tx_out t\<rparr>"
        by (simp add: assms(4))
      show ?thesis
        using te Some stops_not_Running [of "tx_outcome t"]
        by (auto simp add: rd stops_Exit)
    qed
  next
    case False
    define r where "r = receive_start P opt (rx_dev e) (rx_evs e) m s1"
    define t where "t = transmit_start opt (tx_dev e) (tx_evs e) m (rx_state r)"
    note rr = run_round_rx_first [OF False assms(1) s1' r_def t_def]
    have rt: "rx_trunc r = None \<or> rx_trunc r = Some (fst rng)"
      using receive_start_trunc [of P opt "rx_dev e" "rx_evs e" m s1]
      by (simp add: r_def s1_def assms(3))
    have rf: "tx_bytes (rx_state r) = tx_bytes s" "msgs (rx_state r) = msgs s"
      using receive_start_frame [of P opt "rx_dev e" "rx_evs e" m s1]
      by (simp_all add: r_def s1_def)
    have rret: "rx_outcome r = Returned \<Longrightarrow>
        prng (rx_state r) = snd rng \<and> rx_bytes (rx_state r) = rx_bytes s + ucast (fst rng) \<and>
        rx_trunc r = Some (fst rng)"
      using receive_start_returned [of P opt "rx_dev e" "rx_evs e" m s1]
      by (simp add: r_def s1_def assms(3))
    have re: "rx_outcome r = Exited c \<Longrightarrow> c = - 1"
      using receive_start_exited [of P opt "rx_dev e" "rx_evs e" m s1 c]
      by (simp add: r_def)
    have tf: "prng (tx_state t) = prng (rx_state r)" "rx_bytes (tx_state t) = rx_bytes (rx_state r)"
      "msgs (tx_state t) = msgs s"
      using transmit_start_frame [of opt "tx_dev e" "tx_evs e" m "rx_state r"] rf
      by (simp_all add: t_def)
    have tr: "tx_outcome t = Returned \<Longrightarrow> tx_bytes (tx_state t) = tx_bytes s + ucast (msg_len m)"
      using transmit_start_returned [of opt "tx_dev e" "tx_evs e" m "rx_state r"] rf
      by (simp add: t_def)
    have te: "tx_outcome t = Exited c \<Longrightarrow> c = - 1"
      using transmit_start_outcome [of opt "tx_dev e" "tx_evs e" m "rx_state r" c]
      by (simp add: t_def)
    show ?thesis
    proof (cases "stops (rx_outcome r)")
      case None
      with rr have rd: "rd = \<lparr>rd_ending = joined (rx_outcome r) (tx_outcome t),
           rd_state = tx_state t,
           rd_rec = \<lparr>r_msg = m, r_trunc = rx_trunc r,
                     r_done = (joined (rx_outcome r) (tx_outcome t) = None)\<rparr>,
           rd_out = rx_out r @ tx_out t\<rparr>"
        by (simp add: assms(4))
      show ?thesis
        using rt rret tf tr te
        by (auto simp add: rd joined_None joined_Exit joined_not_Running)
    next
      case (Some en)
      with rr have rd: "rd = \<lparr>rd_ending = Some en, rd_state = rx_state r,
           rd_rec = \<lparr>r_msg = m, r_trunc = rx_trunc r, r_done = False\<rparr>, rd_out = rx_out r\<rparr>"
        by (simp add: assms(4))
      show ?thesis
        using rt re Some stops_not_Running [of "rx_outcome r"]
        by (auto simp add: rd stops_Exit)
    qed
  qed
  from all show "r_msg (rd_rec rd) = m" by blast
  from all show "r_trunc (rd_rec rd) = None \<or> r_trunc (rd_rec rd) = Some (fst rng)" by blast
  from all show "r_done (rd_rec rd) \<longleftrightarrow> rd_ending rd = None" by blast
  from all show "rd_ending rd = None \<Longrightarrow>
           r_trunc (rd_rec rd) = Some (fst rng) \<and> prng (rd_state rd) = snd rng \<and>
           tx_bytes (rd_state rd) = tx_bytes s + ucast (msg_len m) \<and>
           rx_bytes (rd_state rd) = rx_bytes s + ucast (fst rng) \<and>
           msgs (rd_state rd) = msgs s" by blast
  from all show "rd_ending rd = Some (Exit c) \<Longrightarrow> c = - 1" by blast
  from all show "rd_ending rd \<noteq> Some Running" by blast
qed

section \<open>Facts about the main loop\<close>

declare main_loop.simps [simp del]


lemma main_loop_exit0:
  "\<not> (opt_nmsgs opt = 0 \<or> msgs s < opt_nmsgs opt) \<Longrightarrow>
   main_loop P opt envs s =
     \<lparr>ending = Exit 0, final = s, rounds = [], run_out = [print_stats Main_thread s]\<rparr>"
  by (simp add: main_loop.simps)

lemma main_loop_Nil:
  "opt_nmsgs opt = 0 \<or> msgs s < opt_nmsgs opt \<Longrightarrow>
   main_loop P opt [] s = \<lparr>ending = Running, final = s, rounds = [], run_out = []\<rparr>"
  by (simp add: main_loop.simps)

lemma main_loop_sigint:
  "opt_nmsgs opt = 0 \<or> msgs s < opt_nmsgs opt \<Longrightarrow> sigint e \<Longrightarrow>
   main_loop P opt (e # es) s =
     \<lparr>ending = Exit (- 1), final = s, rounds = [], run_out = [print_stats Main_thread s]\<rparr>"
  by (simp add: main_loop.simps [of P opt "e # es"] signal_handler_def)

lemma main_loop_stop:
  "opt_nmsgs opt = 0 \<or> msgs s < opt_nmsgs opt \<Longrightarrow> \<not> sigint e \<Longrightarrow>
   rd_ending (run_round P opt e s) = Some en \<Longrightarrow>
   main_loop P opt (e # es) s =
     \<lparr>ending = en, final = rd_state (run_round P opt e s),
      rounds = [rd_rec (run_round P opt e s)], run_out = rd_out (run_round P opt e s)\<rparr>"
  by (simp add: main_loop.simps [of P opt "e # es"] Let_def)

lemma main_loop_step:
  "opt_nmsgs opt = 0 \<or> msgs s < opt_nmsgs opt \<Longrightarrow> \<not> sigint e \<Longrightarrow>
   rd_ending (run_round P opt e s) = None \<Longrightarrow>
   r = main_loop P opt es
         ((rd_state (run_round P opt e s))\<lparr>msgs := msgs (rd_state (run_round P opt e s)) + 1\<rparr>) \<Longrightarrow>
   main_loop P opt (e # es) s =
     r\<lparr>rounds := rd_rec (run_round P opt e s) # rounds r,
       run_out := rd_out (run_round P opt e s) @ run_out r\<rparr>"
  by (simp add: main_loop.simps [of P opt "e # es"] Let_def)

lemma main_loop_cases [case_names finished observed interrupted stopped step]:
  assumes "\<not> (opt_nmsgs opt = 0 \<or> msgs s < opt_nmsgs opt) \<Longrightarrow> R"
    and "opt_nmsgs opt = 0 \<or> msgs s < opt_nmsgs opt \<Longrightarrow> envs = [] \<Longrightarrow> R"
    and "\<And>e es. opt_nmsgs opt = 0 \<or> msgs s < opt_nmsgs opt \<Longrightarrow> envs = e # es \<Longrightarrow>
           sigint e \<Longrightarrow> R"
    and "\<And>e es en. opt_nmsgs opt = 0 \<or> msgs s < opt_nmsgs opt \<Longrightarrow> envs = e # es \<Longrightarrow>
           \<not> sigint e \<Longrightarrow> rd_ending (run_round P opt e s) = Some en \<Longrightarrow> R"
    and "\<And>e es. opt_nmsgs opt = 0 \<or> msgs s < opt_nmsgs opt \<Longrightarrow> envs = e # es \<Longrightarrow>
           \<not> sigint e \<Longrightarrow> rd_ending (run_round P opt e s) = None \<Longrightarrow> R"
  shows R
proof (cases "opt_nmsgs opt = 0 \<or> msgs s < opt_nmsgs opt")
  case False
  then show ?thesis by (rule assms(1))
next
  case c: True
  show ?thesis
  proof (cases envs)
    case Nil
    with c show ?thesis by (rule assms(2))
  next
    case (Cons e es)
    show ?thesis
    proof (cases "sigint e")
      case True
      with c Cons show ?thesis by (rule assms(3))
    next
      case False
      show ?thesis
      proof (cases "rd_ending (run_round P opt e s)")
        case None
        with c Cons False show ?thesis by (rule assms(5))
      next
        case (Some en)
        with c Cons False show ?thesis by (rule assms(4))
      qed
    qed
  qed
qed

section \<open>Facts about the generated sequence\<close>

lemma gen_rounds_Suc:
  "gen_rounds P N (Suc n) g =
     (fst (msg_gen P (- N) g),
      fst (brahe_prng_range P (snd (msg_gen P (- N) g)) 1 (msg_len (fst (msg_gen P (- N) g))))) #
     gen_rounds P N n
       (snd (brahe_prng_range P (snd (msg_gen P (- N) g)) 1 (msg_len (fst (msg_gen P (- N) g)))))"
  by (simp add: split_beta Let_def)

declare gen_rounds.simps(2) [simp del]



lemma gen_rounds_length: "length (gen_rounds P N n g) = n"
  by (induction n arbitrary: g) (simp_all add: gen_rounds_Suc)

lemma main_Ran:
  assumes "parse_args strtoul args opts_init = Some opt" and "main P strtoul args envs = Ran r"
  shows "r = main_loop P opt envs (globals_init (brahe_prng_init P (opt_seed opt)))"
    and "opt_rxdev opt \<noteq> None"
  using assms by (simp_all add: main_def split: if_splits)



section \<open>Facts about the byte counters\<close>

lemma main_loop_totals:
  assumes "\<forall>x \<in> set (rounds (main_loop P opt envs s)). r_done x"
  shows "tx_bytes (final (main_loop P opt envs s)) =
           tx_bytes s + word_of_nat (\<Sum>x\<leftarrow>rounds (main_loop P opt envs s). unat (msg_len (r_msg x))) \<and>
         rx_bytes (final (main_loop P opt envs s)) =
           rx_bytes s + word_of_nat (\<Sum>x\<leftarrow>rounds (main_loop P opt envs s). trunc_len x) \<and>
         (\<forall>x \<in> set (rounds (main_loop P opt envs s)). r_trunc x \<noteq> None)"
  using assms
proof (induction envs arbitrary: s)
  case Nil
  show ?case
    by (cases "opt_nmsgs opt = 0 \<or> msgs s < opt_nmsgs opt")
       (simp_all add: main_loop_Nil main_loop_exit0)
next
  case (Cons e es)
  define m where "m = fst (msg_gen P (- opt_msglen opt) (prng s))"
  define g1 where "g1 = snd (msg_gen P (- opt_msglen opt) (prng s))"
  define rng where "rng = brahe_prng_range P g1 1 (msg_len m)"
  define rd where "rd = run_round P opt e s"
  note f = run_round_facts [OF m_def g1_def rng_def rd_def]
  show ?case
  proof (cases rule: main_loop_cases [where opt=opt and s=s and envs="e # es" and P=P])
    case finished
    then show ?thesis by (simp add: main_loop_exit0)
  next
    case observed
    then show ?thesis by simp
  next
    case (interrupted e' es')
    then show ?thesis by (simp add: main_loop_sigint)
  next
    case (stopped e' es' en)
    then have e: "e' = e" "es' = es" by simp_all
    from stopped(4) f(3) have nd: "\<not> r_done (rd_rec rd)" by (simp add: e rd_def)
    have "main_loop P opt (e # es) s =
       \<lparr>ending = en, final = rd_state rd, rounds = [rd_rec rd], run_out = rd_out rd\<rparr>"
      unfolding rd_def by (rule main_loop_stop [OF stopped(1) stopped(3,4) [unfolded e]])
    with Cons.prems nd have False by simp
    then show ?thesis ..
  next
    case (step e' es')
    then have e: "e' = e" "es' = es" by simp_all
    define s' where "s' = (rd_state rd)\<lparr>msgs := msgs (rd_state rd) + 1\<rparr>"
    define r where "r = main_loop P opt es s'"
    from step(4) have en: "rd_ending rd = None" by (simp add: e rd_def)
    from f(4) [OF en] have t: "r_trunc (rd_rec rd) = Some (fst rng)"
      and tx: "tx_bytes s' = tx_bytes s + ucast (msg_len m)"
      and rx: "rx_bytes s' = rx_bytes s + ucast (fst rng)"
      by (simp_all add: s'_def)
    have ml: "main_loop P opt (e # es) s =
        r\<lparr>rounds := rd_rec rd # rounds r, run_out := rd_out rd @ run_out r\<rparr>"
      unfolding rd_def r_def s'_def
      by (rule main_loop_step [OF step(1) step(3,4) [unfolded e] refl])
    from Cons.prems have d: "\<forall>x \<in> set (rounds r). r_done x" by (simp add: ml)
    from Cons.IH [of s', folded r_def, OF d]
    have ih: "tx_bytes (final r) = tx_bytes s' + word_of_nat (\<Sum>x\<leftarrow>rounds r. unat (msg_len (r_msg x)))"
      "rx_bytes (final r) = rx_bytes s' + word_of_nat (\<Sum>x\<leftarrow>rounds r. trunc_len x)"
      "\<forall>x \<in> set (rounds r). r_trunc x \<noteq> None"
      by simp_all
    have tl: "trunc_len (rd_rec rd) = unat (fst rng)" by (simp add: trunc_len_def t)
    show ?thesis
      using ih t by (simp add: ml tx rx f(1) tl add.assoc)
  qed
qed

lemma main_loop_lens:
  assumes "range_in_bounds P" and "msglen_ok opt"
  shows "\<forall>x \<in> set (rounds (main_loop P opt envs s)).
           unat (msg_len (r_msg x)) \<le> 4096 \<and> trunc_len x \<le> 4096"
proof (induction envs arbitrary: s)
  case Nil
  show ?case
    by (cases "opt_nmsgs opt = 0 \<or> msgs s < opt_nmsgs opt")
       (simp_all add: main_loop_Nil main_loop_exit0)
next
  case (Cons e es)
  define m where "m = fst (msg_gen P (- opt_msglen opt) (prng s))"
  define g1 where "g1 = snd (msg_gen P (- opt_msglen opt) (prng s))"
  define rng where "rng = brahe_prng_range P g1 1 (msg_len m)"
  define rd where "rd = run_round P opt e s"
  note f = run_round_facts [OF m_def g1_def rng_def rd_def]
  note nb = msglen_ok_bounds [OF assms(2)]
  have ml': "msg_len m = fst (brahe_prng_range P (prng s) 1 (opt_msglen opt))"
    by (simp add: m_def msg_gen_neg [OF nb(1,2)])
  from range_bounds [OF assms(1) nb(1)] have lb: "1 \<le> msg_len m" "msg_len m \<le> opt_msglen opt"
    by (simp_all add: ml')
  from lb(2) nb(3) have "msg_len m \<le> MAX_MAX_MSG_LEN" by (rule order_trans)
  then have mx: "unat (msg_len m) \<le> 4096"
    by (simp add: word_le_nat_alt MAX_MAX_MSG_LEN_def)
  from range_bounds [OF assms(1) lb(1)] have "fst rng \<le> msg_len m" by (simp add: rng_def)
  then have "unat (fst rng) \<le> unat (msg_len m)" by (simp add: word_le_nat_alt)
  with mx have tx: "unat (fst rng) \<le> 4096" by simp
  have rec: "unat (msg_len (r_msg (rd_rec rd))) \<le> 4096 \<and> trunc_len (rd_rec rd) \<le> 4096"
    using f(1,2) mx tx by (auto simp add: trunc_len_def)
  show ?case
  proof (cases rule: main_loop_cases [where opt=opt and s=s and envs="e # es" and P=P])
    case finished
    then show ?thesis by (simp add: main_loop_exit0)
  next
    case observed
    then show ?thesis by simp
  next
    case (interrupted e' es')
    then show ?thesis by (simp add: main_loop_sigint)
  next
    case (stopped e' es' en)
    then have e: "e' = e" "es' = es" by simp_all
    have "main_loop P opt (e # es) s =
       \<lparr>ending = en, final = rd_state rd, rounds = [rd_rec rd], run_out = rd_out rd\<rparr>"
      unfolding rd_def by (rule main_loop_stop [OF stopped(1) stopped(3,4) [unfolded e]])
    with rec show ?thesis by simp
  next
    case (step e' es')
    then have e: "e' = e" "es' = es" by simp_all
    define s' where "s' = (rd_state rd)\<lparr>msgs := msgs (rd_state rd) + 1\<rparr>"
    define r where "r = main_loop P opt es s'"
    have ml: "main_loop P opt (e # es) s =
        r\<lparr>rounds := rd_rec rd # rounds r, run_out := rd_out rd @ run_out r\<rparr>"
      unfolding rd_def r_def s'_def
      by (rule main_loop_step [OF step(1) step(3,4) [unfolded e] refl])
    from Cons.IH [of s', folded r_def] rec show ?thesis by (simp add: ml)
  qed
qed

lemma sum_list_bounded:
  "\<forall>x \<in> set xs. f x \<le> (c::nat) \<Longrightarrow> sum_list (map f xs) \<le> length xs * c"
  by (induction xs) auto

lemma unat_total:
  assumes "n < 2 ^ 52" and "S \<le> n * 4096"
  shows "unat (word_of_nat S :: u64) = S"
proof -
  have "n * 4096 < 2 ^ 52 * (4096::nat)" using assms(1) by simp
  also have "\<dots> = 2 ^ 64" by simp
  finally have "S < 2 ^ 64" using assms(2) by simp
  then show ?thesis by (simp add: unat_of_nat)
qed

section \<open>Facts about the way a run ends\<close>





section \<open>Facts about the small run\<close>

lemma parse_toy_args:
  "parse_args toy_strtoul toy_args opts_init = Some toy_opts"
  by code_simp

lemma main_toy_a: "main toy toy_strtoul toy_args [toy_round] = Ran toy_run"
  by (simp add: main_def parse_toy_args)


lemma rounds_toy_a:
  "rounds toy_run = [\<lparr>r_msg = toy_msg, r_trunc = Some 1, r_done = True\<rparr>]"
  by code_simp


section \<open>C4: the generated sequence is fixed by the seed and the configuration\<close>



section \<open>C5: the byte counters\<close>

text \<open>
  C5. In a run all of whose rounds are completed, \<open>tx_bytes\<close> is the sum of the message
  lengths of the rounds and \<open>rx_bytes\<close> the sum of their truncation lengths (each round has
  one): as 64-bit counters always, and as numbers in a run of fewer than \<open>2 ^ 52\<close> rounds,
  before which the counters cannot wrap, a round adding at most 4096 to either. A completed
  round adds its message length to \<open>tx_bytes\<close> and its truncation length to \<open>rx_bytes\<close>.
\<close>

theorem statistics_totals:
  assumes "range_in_bounds P" and "parse_args strtoul args opts_init = Some opt"
    and "main P strtoul args envs = Ran r" and "\<forall>x \<in> set (rounds r). r_done x"
  shows "tx_bytes (final r) = word_of_nat (\<Sum>x\<leftarrow>rounds r. unat (msg_len (r_msg x))) \<and>
         rx_bytes (final r) = word_of_nat (\<Sum>x\<leftarrow>rounds r. trunc_len x) \<and>
         (\<forall>x \<in> set (rounds r). r_trunc x \<noteq> None) \<and>
         (length (rounds r) < 2 ^ 52 \<longrightarrow>
            unat (tx_bytes (final r)) = (\<Sum>x\<leftarrow>rounds r. unat (msg_len (r_msg x))) \<and>
            unat (rx_bytes (final r)) = (\<Sum>x\<leftarrow>rounds r. trunc_len x)) \<and>
         (rd_ending (run_round P opt e s) = None \<longrightarrow>
            tx_bytes (rd_state (run_round P opt e s)) =
              tx_bytes s + ucast (msg_len (r_msg (rd_rec (run_round P opt e s)))) \<and>
            rx_bytes (rd_state (run_round P opt e s)) =
              rx_bytes s + word_of_nat (trunc_len (rd_rec (run_round P opt e s))))"
proof -
  define g0 where "g0 = brahe_prng_init P (opt_seed opt)"
  have r: "r = main_loop P opt envs (globals_init g0)"
    using main_Ran(1) [OF assms(2,3)] by (simp add: g0_def)
  have z: "tx_bytes (globals_init g0) = 0" "rx_bytes (globals_init g0) = 0"
    by (simp_all add: globals_init_def)
  from main_loop_totals [of P opt envs "globals_init g0"] assms(4)
  have tot: "tx_bytes (final r) = word_of_nat (\<Sum>x\<leftarrow>rounds r. unat (msg_len (r_msg x)))"
    "rx_bytes (final r) = word_of_nat (\<Sum>x\<leftarrow>rounds r. trunc_len x)"
    "\<forall>x \<in> set (rounds r). r_trunc x \<noteq> None"
    by (simp_all add: r z)
  have ok: "msglen_ok opt" using assms(2) opts_init_ok by (rule parse_args_msglen)
  from main_loop_lens [OF assms(1) ok, of envs "globals_init g0"]
  have b: "\<forall>x \<in> set (rounds r). unat (msg_len (r_msg x)) \<le> 4096"
    "\<forall>x \<in> set (rounds r). trunc_len x \<le> 4096"
    by (simp_all add: r)
  have nat: "unat (tx_bytes (final r)) = (\<Sum>x\<leftarrow>rounds r. unat (msg_len (r_msg x))) \<and>
            unat (rx_bytes (final r)) = (\<Sum>x\<leftarrow>rounds r. trunc_len x)"
    if "length (rounds r) < 2 ^ 52"
    using unat_total [OF that sum_list_bounded [OF b(1)]]
      unat_total [OF that sum_list_bounded [OF b(2)]]
    by (simp add: tot)
  have one: "tx_bytes (rd_state (run_round P opt e s)) =
              tx_bytes s + ucast (msg_len (r_msg (rd_rec (run_round P opt e s)))) \<and>
            rx_bytes (rd_state (run_round P opt e s)) =
              rx_bytes s + word_of_nat (trunc_len (rd_rec (run_round P opt e s)))"
    if "rd_ending (run_round P opt e s) = None"
    using run_round_facts(1) [OF refl refl refl refl, where P=P and opt=opt and e=e and s=s]
      run_round_facts(4) [OF refl refl refl refl that]
    by (simp add: trunc_len_def)
  from tot nat one show ?thesis by simp
qed

text \<open>The theorem on the small run: 7 bytes sent, 1 byte received.\<close>

theorem statistics_totals_witness:
  "range_in_bounds toy \<and>
   parse_args toy_strtoul toy_args opts_init = Some toy_opts \<and>
   main toy toy_strtoul toy_args [toy_round] = Ran toy_run \<and>
   list_all r_done (rounds toy_run) \<and>
   map (\<lambda>x. unat (msg_len (r_msg x))) (rounds toy_run) = [7] \<and>
   map trunc_len (rounds toy_run) = [1] \<and>
   tx_bytes (final toy_run) = 7 \<and> rx_bytes (final toy_run) = 1 \<and>
   unat (tx_bytes (final toy_run)) = 7 \<and> unat (rx_bytes (final toy_run)) = 1"
proof -
  have d: "\<forall>x \<in> set (rounds toy_run). r_done x"
    unfolding rounds_toy_a by simp
  have d': "list_all r_done (rounds toy_run)"
    unfolding rounds_toy_a by simp
  have l: "length (rounds toy_run) < 2 ^ 52"
    unfolding rounds_toy_a by simp
  have s1: "map (\<lambda>x. unat (msg_len (r_msg x))) (rounds toy_run) = [7]"
    unfolding rounds_toy_a by simp
  have s2: "map trunc_len (rounds toy_run) = [1]"
    unfolding rounds_toy_a by (simp add: trunc_len_def)
  note t = statistics_totals [OF toy_range_in_bounds parse_toy_args main_toy_a d]
  have w1: "tx_bytes (final toy_run) = 7"
    using t [THEN conjunct1] unfolding s1 by simp
  have w2: "rx_bytes (final toy_run) = 1"
    using t [THEN conjunct2, THEN conjunct1] unfolding s2 by simp
  have n: "unat (tx_bytes (final toy_run)) = 7 \<and> unat (rx_bytes (final toy_run)) = 1"
    using t [THEN conjunct2, THEN conjunct2, THEN conjunct2, THEN conjunct1, THEN mp, OF l]
    unfolding s1 s2 by simp
  from toy_range_in_bounds parse_toy_args main_toy_a d' s1 s2 w1 w2 n [THEN conjunct1] n [THEN conjunct2]
  show ?thesis by - (intro conjI; assumption)
qed

section \<open>C9: the exit code\<close>



end
